theory Spec2Isabelle
  imports Complex_Main "HOL-Library.Log_Nat"
begin

section \<open>Strings\<close>

text \<open>
  Python strings are modelled as \<open>string\<close> (a list of characters). The helpers below are
  the string operations the source uses: \<open>sub in s\<close>, \<open>s.endswith(t)\<close> and
  \<open>s.split(sep)[-1]\<close>.
\<close>

fun startswith :: "string \<Rightarrow> string \<Rightarrow> bool" where
  "startswith s [] = True"
| "startswith [] (p # ps) = False"
| "startswith (c # cs) (p # ps) = (c = p \<and> startswith cs ps)"

text \<open>\<open>py_in sub s\<close> is Python's \<open>sub in s\<close>: \<open>sub\<close> occurs in \<open>s\<close> as a contiguous run.\<close>

fun py_in :: "string \<Rightarrow> string \<Rightarrow> bool" where
  "py_in sub [] = (sub = [])"
| "py_in sub (c # cs) = (startswith (c # cs) sub \<or> py_in sub cs)"

definition endswith :: "string \<Rightarrow> string \<Rightarrow> bool" where
  "endswith s t = startswith (rev s) (rev t)"

text \<open>
  \<open>split_last sep s\<close> is \<open>s.split(sep)[-1]\<close> for a non-empty separator: the scan goes left
  to right, jumps over each occurrence of the separator and restarts the segment after it;
  the last segment is what remains. \<open>seg\<close> is the current segment, reversed.
\<close>

function split_last_from :: "string \<Rightarrow> string \<Rightarrow> string \<Rightarrow> string" where
  "split_last_from sep seg [] = rev seg"
| "split_last_from sep seg (c # cs) =
     (if sep \<noteq> [] \<and> startswith (c # cs) sep
      then split_last_from sep [] (drop (length sep) (c # cs))
      else split_last_from sep (c # seg) cs)"
  by pat_completeness auto
termination
  by (relation "measure (\<lambda>(sep, seg, s). length s)") auto

definition split_last :: "string \<Rightarrow> string \<Rightarrow> string" where
  "split_last sep s = split_last_from sep [] s"

section \<open>Nodes\<close>

text \<open>
  Both trees are built from Python dicts with a fixed set of keys; a node is a record of
  those keys and the list of its children. Keys that only some nodes carry are options:
  the eight geometry keys \<open>x1 \<dots> height\<close> are written together or not at all
  (\<open>UIParser._parse_node\<close> sets them only when the bounds string holds exactly four
  numbers), the five flags \<open>focused\<close>, \<open>long-clickable\<close>, \<open>selected\<close>, \<open>checkable\<close>,
  \<open>checked\<close> exist on attribute nodes only, and \<open>text_source\<close>, \<open>info_supplemented\<close>,
  \<open>text_matched\<close> are written by the merge. Flag values are the strings of the dump
  (\<open>''true''\<close>, \<open>''false''\<close>). \<open>ident\<close> stands for the identity of the dict object: the
  merge marks attribute nodes in place (\<open>node['_used'] = True\<close>) and reaches the same
  object through the index and through the tree, so the mark is kept per identity.
\<close>

record geometry =
  x1 :: int
  y1 :: int
  x2 :: int
  y2 :: int
  center_x :: int
  center_y :: int
  width :: int
  height :: int

record node_info =
  class_name :: string
  package :: string
  node_text :: string
  resource_id :: string
  content_desc :: string
  bounds :: string
  clickable :: string
  enabled :: string
  focusable :: string
  scrollable :: string
  focused :: "string option"
  long_clickable :: "string option"
  selected :: "string option"
  checkable :: "string option"
  checked :: "string option"
  node_index :: string
  geom :: "geometry option"
  text_source :: "string option"
  info_supplemented :: "bool option"
  text_matched :: "bool option"
  ident :: nat

datatype node = Node (info: node_info) (children: "node list")

text \<open>Pre-order enumeration of a tree: the node, then its children's subtrees left to right.\<close>

fun preorder :: "node \<Rightarrow> node list" where
  "preorder (Node i cs) = Node i cs # concat (map preorder cs)"

section \<open>Merger: copying attributes into a matched geometry node\<close>

text \<open>
  \<open>HybridUIParser._supplement_text_info\<close>. The geometry node is updated in place; the
  model returns the updated node. The children are untouched.
\<close>

definition copy_flag ::
  "string option \<Rightarrow> string option \<Rightarrow> string option" where
  "copy_flag ui_value vh_value = (case ui_value of Some v \<Rightarrow> Some v | None \<Rightarrow> vh_value)"

definition supplement_text_info :: "node \<Rightarrow> node \<Rightarrow> node" where
  "supplement_text_info vh_node ui_node =
     (let vh = info vh_node;
          ui = info ui_node;
          ui_text = node_text ui;
          ui_content_desc = content_desc ui;
          vh1 = (if ui_content_desc \<noteq> []
                 then vh\<lparr>content_desc := ui_content_desc, text_source := Some ''content-desc''\<rparr>
                 else if ui_text \<noteq> []
                 then vh\<lparr>content_desc := ui_text, text_source := Some ''text''\<rparr>
                 else vh);
          vh2 = vh1\<lparr>node_text := ui_text\<rparr>;
          ui_resource_id = resource_id ui;
          vh3 = (if ui_resource_id \<noteq> [] \<and> resource_id vh2 = []
                 then vh2\<lparr>resource_id := ui_resource_id\<rparr> else vh2);
          vh4 = vh3\<lparr>clickable := clickable ui,
                    long_clickable := copy_flag (long_clickable ui) (long_clickable vh3),
                    checkable := copy_flag (checkable ui) (checkable vh3),
                    checked := copy_flag (checked ui) (checked vh3),
                    selected := copy_flag (selected ui) (selected vh3),
                    enabled := enabled ui,
                    focusable := focusable ui,
                    focused := copy_flag (focused ui) (focused vh3),
                    scrollable := scrollable ui\<rparr>
      in Node (vh4\<lparr>info_supplemented := Some True, text_matched := Some True\<rparr>)
              (children vh_node))"

section \<open>Hit testing\<close>

text \<open>
  \<open>UIParser._find_elements_at_point\<close> appends to the list \<open>elements\<close> while it walks the
  tree; the model threads the list.
\<close>

definition contains_point :: "node \<Rightarrow> int \<Rightarrow> int \<Rightarrow> bool" where
  "contains_point n x y =
     (case geom (info n) of
        None \<Rightarrow> False
      | Some g \<Rightarrow> x1 g \<le> x \<and> x \<le> x2 g \<and> y1 g \<le> y \<and> y \<le> y2 g)"

fun find_elements_at_point :: "node \<Rightarrow> int \<Rightarrow> int \<Rightarrow> node list \<Rightarrow> node list"
  and find_elements_in_children :: "node list \<Rightarrow> int \<Rightarrow> int \<Rightarrow> node list \<Rightarrow> node list"
where
  "find_elements_at_point (Node i cs) x y elements =
     find_elements_in_children cs x y
       (if contains_point (Node i cs) x y then elements @ [Node i cs] else elements)"
| "find_elements_in_children [] x y elements = elements"
| "find_elements_in_children (c # cs) x y elements =
     find_elements_in_children cs x y (find_elements_at_point c x y elements)"

text \<open>
  The key of \<open>min\<close>: \<open>e.get('width', inf) * e.get('height', inf)\<close>. \<open>None\<close> is the
  infinite key of a node without geometry.
\<close>

definition area_key :: "node \<Rightarrow> int option" where
  "area_key e = (case geom (info e) of None \<Rightarrow> None | Some g \<Rightarrow> Some (width g * height g))"

fun key_less :: "int option \<Rightarrow> int option \<Rightarrow> bool" where
  "key_less (Some a) (Some b) = (a < b)"
| "key_less (Some a) None = True"
| "key_less None k = False"

text \<open>Python's \<open>min(xs, key=f)\<close> keeps the first element whose key is smallest.\<close>

fun py_min_from :: "node \<Rightarrow> node list \<Rightarrow> node" where
  "py_min_from best [] = best"
| "py_min_from best (e # es) =
     py_min_from (if key_less (area_key e) (area_key best) then e else best) es"

definition find_element_at_point :: "node option \<Rightarrow> int \<Rightarrow> int \<Rightarrow> node option" where
  "find_element_at_point ui_data x y =
     (case ui_data of
        None \<Rightarrow> None
      | Some tree \<Rightarrow>
          (case find_elements_at_point tree x y [] of
             [] \<Rightarrow> None
           | e # es \<Rightarrow> Some (py_min_from e es)))"

section \<open>Attribute index\<close>

text \<open>\<open>HybridUIParser._extract_id_suffix\<close>; \<open>None\<close> is Python's \<open>None\<close>.\<close>

definition extract_id_suffix :: "string \<Rightarrow> string option" where
  "extract_id_suffix full_id =
     (if full_id = [] then None
      else if py_in '':id/'' full_id then Some (split_last '':id/'' full_id)
      else if py_in ''/'' full_id then Some (split_last ''/'' full_id)
      else Some full_id)"

text \<open>
  The state of a \<open>HybridUIParser\<close> object during a merge. \<open>ui_node_map\<close> is the dict from
  id suffix to the list of attribute nodes carrying it. \<open>used\<close> holds the identities of the
  attribute nodes whose \<open>'_used'\<close> key is set. \<open>match_log\<close> records, for every line
  \<open>"\<checkmark> ... <-> ..."\<close> that \<open>_match_and_merge\<close> prints, the identity of the attribute node
  named in it. The two trees \<open>self.vh_tree\<close> and \<open>self.ui_tree\<close> are passed as arguments.
\<close>

record parser_state =
  matched_count :: nat
  unmatched_count :: nat
  ui_node_map :: "string \<rightharpoonup> node list"
  used :: "nat set"
  match_log :: "nat list"

text \<open>\<open>HybridUIParser.__init__\<close>; a freshly parsed attribute tree has no \<open>'_used'\<close> key.\<close>

definition init_state :: parser_state where
  "init_state = \<lparr>matched_count = 0, unmatched_count = 0, ui_node_map = Map.empty,
                  used = {}, match_log = []\<rparr>"

definition index_node :: "node \<Rightarrow> (string \<rightharpoonup> node list) \<Rightarrow> (string \<rightharpoonup> node list)" where
  "index_node ui_node m =
     (let rid = resource_id (info ui_node)
      in if rid \<noteq> []
         then (case extract_id_suffix rid of
                 None \<Rightarrow> m
               | Some id_suffix \<Rightarrow>
                   if id_suffix \<noteq> []
                   then m(id_suffix \<mapsto> (case m id_suffix of None \<Rightarrow> [] | Some l \<Rightarrow> l) @ [ui_node])
                   else m)
         else m)"

fun build_ui_index :: "node \<Rightarrow> (string \<rightharpoonup> node list) \<Rightarrow> (string \<rightharpoonup> node list)"
  and build_ui_index_children :: "node list \<Rightarrow> (string \<rightharpoonup> node list) \<Rightarrow> (string \<rightharpoonup> node list)"
where
  "build_ui_index (Node i cs) m = build_ui_index_children cs (index_node (Node i cs) m)"
| "build_ui_index_children [] m = m"
| "build_ui_index_children (c # cs) m = build_ui_index_children cs (build_ui_index c m)"

section \<open>Double-precision numbers\<close>

text \<open>
  A Python \<open>float\<close> is an IEEE 754 double: a sign, a significand of 53 bits and a power
  of two, the least power being \<open>2 ^ (-1074)\<close>. A double is modelled by the rational
  number it stands for. A literal, a sum, a product and the quotient \<open>/\<close> of two integers
  are the exact value rounded to the nearest double, to the one with the even significand
  when two are equally near. \<open>floor_log2 x\<close> is the exponent \<open>e\<close> with
  \<open>2 ^ e \<le> x < 2 ^ (e + 1)\<close>. Infinities are not modelled: the numbers of the scorer
  stay below 2.
\<close>

definition floor_log2 :: "rat \<Rightarrow> int" where
  "floor_log2 x =
     (case quotient_of x of
        (p, q) \<Rightarrow> (let e = bitlen p - bitlen q in if 2 powi e \<le> x then e else e - 1))"

definition round_half_even :: "rat \<Rightarrow> int" where
  "round_half_even m =
     (let f = \<lfloor>m\<rfloor>; d = m - of_int f
      in if d < 1/2 then f else if d > 1/2 then f + 1 else if even f then f else f + 1)"

definition round_double :: "rat \<Rightarrow> rat" where
  "round_double x =
     (if x = 0 then 0
      else (let a = \<bar>x\<bar>;
                u = max (floor_log2 a - 52) (- 1074);
                n = round_half_even (a / 2 powi u)
            in sgn x * of_int n * 2 powi u))"

text \<open>\<open>a + b\<close> and \<open>a * b\<close> on floats, and \<open>a / b\<close> on two integers.\<close>

definition fadd :: "rat \<Rightarrow> rat \<Rightarrow> rat" where
  "fadd a b = round_double (a + b)"

definition fmul :: "rat \<Rightarrow> rat \<Rightarrow> rat" where
  "fmul a b = round_double (a * b)"

definition truediv :: "nat \<Rightarrow> nat \<Rightarrow> rat" where
  "truediv a b = round_double (of_nat a / of_nat b)"

section \<open>Scorer\<close>

text \<open>
  \<open>HybridUIParser._calculate_match_score\<close>. The score is a float: it starts at 0.0 and
  each \<open>score += \<dots>\<close> is a float addition; the literals 0.4, 0.3, 0.2 and 0.15 are
  the doubles nearest to them.
\<close>

definition type_groups :: "(string \<times> string list) list" where
  "type_groups =
     [(''text'', [''TextView'', ''EditText'', ''TextInputEditText'', ''AppCompatTextView'']),
      (''button'', [''Button'', ''ImageButton'', ''AppCompatButton'', ''MaterialButton'']),
      (''image'', [''ImageView'', ''AppCompatImageView'', ''ImageButton'']),
      (''layout'', [''LinearLayout'', ''RelativeLayout'', ''FrameLayout'', ''ConstraintLayout'']),
      (''container'', [''RecyclerView'', ''ListView'', ''ScrollView'', ''ViewPager''])]"

definition in_group :: "string \<Rightarrow> string list \<Rightarrow> bool" where
  "in_group cls class_list = list_ex (\<lambda>c. py_in c cls) class_list"

definition similar_class_names :: "string \<Rightarrow> string \<Rightarrow> bool" where
  "similar_class_names class1 class2 =
     (if class1 = class2 then True
      else list_ex (\<lambda>(group_name, class_list).
                      in_group class1 class_list \<and> in_group class2 class_list) type_groups)"

definition score_attrs :: "(node_info \<Rightarrow> string) list" where
  "score_attrs = [clickable, focusable, enabled, scrollable]"

definition calculate_match_score :: "node \<Rightarrow> node \<Rightarrow> bool \<Rightarrow> rat" where
  "calculate_match_score vh_node ui_node has_same_id =
     (let score0 = 0;
          score1 = (if has_same_id then fadd score0 (round_double (4/10)) else score0);
          vh_class = split_last ''.'' (class_name (info vh_node));
          ui_class = split_last ''.'' (class_name (info ui_node));
          score2 = (if vh_class = ui_class then fadd score1 (round_double (3/10))
                    else if similar_class_names vh_class ui_class
                    then fadd score1 (round_double (2/10))
                    else score1);
          vh_child_count = length (children vh_node);
          ui_child_count = length (children ui_node);
          score3 = (if vh_child_count = ui_child_count then fadd score2 (round_double (15/100))
                    else if vh_child_count > 0 \<and> ui_child_count > 0
                    then (let similarity = truediv (min vh_child_count ui_child_count)
                                                   (max vh_child_count ui_child_count)
                          in fadd score2 (fmul (round_double (15/100)) similarity))
                    else score2);
          attr_score = length (filter (\<lambda>attr. attr (info vh_node) = attr (info ui_node)) score_attrs);
          attr_count = length score_attrs
      in if attr_count > 0
         then fadd score3 (fmul (round_double (15/100)) (truediv attr_score attr_count))
         else score3)"

section \<open>Matcher\<close>

definition is_node_available :: "parser_state \<Rightarrow> node \<Rightarrow> bool" where
  "is_node_available st n = (ident (info n) \<notin> used st)"

definition mark_node_used :: "parser_state \<Rightarrow> node \<Rightarrow> parser_state" where
  "mark_node_used st n = st\<lparr>used := insert (ident (info n)) (used st)\<rparr>"

text \<open>
  \<open>HybridUIParser._search_in_subtree\<close>: the candidate list is appended to during the
  walk; the model threads it. The parameter \<open>level\<close> of the source only indents the
  printed lines and is left out here and below.
\<close>

fun search_in_subtree ::
    "parser_state \<Rightarrow> node \<Rightarrow> node \<Rightarrow> (node \<times> rat) list \<Rightarrow> nat \<Rightarrow> nat \<Rightarrow> (node \<times> rat) list"
  and search_in_children ::
    "parser_state \<Rightarrow> node \<Rightarrow> node list \<Rightarrow> (node \<times> rat) list \<Rightarrow> nat \<Rightarrow> nat \<Rightarrow> (node \<times> rat) list"
where
  "search_in_subtree st vh_node (Node i cs) candidates max_depth current_depth =
     (if current_depth > max_depth then candidates
      else search_in_children st vh_node cs
             (if is_node_available st (Node i cs)
              then (let score = calculate_match_score vh_node (Node i cs) False
                    in if score > 0 then candidates @ [(Node i cs, score)] else candidates)
              else candidates)
             max_depth (current_depth + 1))"
| "search_in_children st vh_node [] candidates max_depth depth = candidates"
| "search_in_children st vh_node (c # cs) candidates max_depth depth =
     search_in_children st vh_node cs
       (search_in_subtree st vh_node c candidates max_depth depth) max_depth depth"

text \<open>The loop of strategy 1 over \<open>self.ui_node_map[id_suffix]\<close>.\<close>

fun id_candidates ::
  "parser_state \<Rightarrow> node \<Rightarrow> node list \<Rightarrow> (node \<times> rat) list \<Rightarrow> (node \<times> rat) list" where
  "id_candidates st vh_node [] candidates = candidates"
| "id_candidates st vh_node (ui_node # rest) candidates =
     id_candidates st vh_node rest
       (if is_node_available st ui_node
        then candidates @ [(ui_node, calculate_match_score vh_node ui_node True)]
        else candidates)"

text \<open>
  The candidates \<open>_find_best_match\<close> collects, in the order it collects them: those of the
  id lookup first, then those of the walk below the context.
\<close>

definition collect_candidates :: "parser_state \<Rightarrow> node \<Rightarrow> node \<Rightarrow> (node \<times> rat) list" where
  "collect_candidates st vh_node ui_context =
     (let vh_id = resource_id (info vh_node);
          candidates =
            (if vh_id \<noteq> []
             then (case extract_id_suffix vh_id of
                     None \<Rightarrow> []
                   | Some id_suffix \<Rightarrow>
                       if id_suffix \<noteq> []
                       then (case ui_node_map st id_suffix of
                               None \<Rightarrow> []
                             | Some nodes \<Rightarrow> id_candidates st vh_node nodes [])
                       else [])
             else [])
      in search_in_subtree st vh_node ui_context candidates 2 0)"

text \<open>
  \<open>candidates.sort(key=lambda x: x[1], reverse=True)\<close> is a stable sort by descending
  score: \<open>sort_key\<close> on the negated score. The threshold 0.5 is the double 1/2.
\<close>

definition sort_candidates :: "(node \<times> rat) list \<Rightarrow> (node \<times> rat) list" where
  "sort_candidates candidates = sort_key (\<lambda>c. - snd c) candidates"

definition find_best_match ::
  "parser_state \<Rightarrow> node \<Rightarrow> node \<Rightarrow> node option \<times> parser_state" where
  "find_best_match st vh_node ui_context =
     (case sort_candidates (collect_candidates st vh_node ui_context) of
        [] \<Rightarrow> (None, st)
      | (best_match, score) # rest \<Rightarrow>
          if score \<ge> 1/2 then (Some best_match, mark_node_used st best_match)
          else (None, st))"

section \<open>Merger\<close>

fun match_and_merge :: "node \<Rightarrow> node \<Rightarrow> parser_state \<Rightarrow> node \<times> parser_state"
  and merge_children :: "node list \<Rightarrow> node \<Rightarrow> parser_state \<Rightarrow> node list \<times> parser_state"
where
  "match_and_merge (Node i cs) ui_context st =
     (case find_best_match st (Node i cs) ui_context of
        (Some matched_ui, st1) \<Rightarrow>
          (let st2 = st1\<lparr>matched_count := matched_count st1 + 1,
                         match_log := match_log st1 @ [ident (info matched_ui)]\<rparr>;
               vh1 = supplement_text_info (Node i cs) matched_ui;
               (cs', st3) = merge_children cs matched_ui st2
           in (Node (info vh1) cs', st3))
      | (None, st1) \<Rightarrow>
          (let st2 = st1\<lparr>unmatched_count := unmatched_count st1 + 1\<rparr>;
               (cs', st3) = merge_children cs ui_context st2
           in (Node (i\<lparr>text_matched := Some False\<rparr>) cs', st3)))"
| "merge_children [] ui_context st = ([], st)"
| "merge_children (c # cs) ui_context st =
     (let (c', st1) = match_and_merge c ui_context st;
          (cs', st2) = merge_children cs ui_context st1
      in (c' # cs', st2))"

definition is_content_id :: "string \<Rightarrow> bool" where
  "is_content_id rid = (rid \<noteq> [] \<and> (py_in ''content'' rid \<or> endswith rid '':id/content''))"

fun find_content_node :: "node \<Rightarrow> node option"
  and find_content_in_children :: "node list \<Rightarrow> node option"
where
  "find_content_node (Node i cs) =
     (if is_content_id (resource_id i) then Some (Node i cs)
      else find_content_in_children cs)"
| "find_content_in_children [] = None"
| "find_content_in_children (c # cs) =
     (case find_content_node c of
        Some result \<Rightarrow> Some result
      | None \<Rightarrow> find_content_in_children cs)"

text \<open>
  \<open>HybridUIParser.merge_trees\<close>. The geometry tree is merged in place and its anchor is
  returned; the model returns the merged anchor subtree.
\<close>

definition merge_trees ::
  "node option \<Rightarrow> node option \<Rightarrow> parser_state \<Rightarrow> node option \<times> parser_state" where
  "merge_trees vh_tree ui_tree st =
     (case (vh_tree, ui_tree) of
        (Some vh, Some ui) \<Rightarrow>
          (let vh_content = (case find_content_node vh of None \<Rightarrow> vh | Some c \<Rightarrow> c);
               ui_content = (case find_content_node ui of None \<Rightarrow> ui | Some c \<Rightarrow> c);
               st1 = st\<lparr>ui_node_map := build_ui_index ui_content (ui_node_map st)\<rparr>;
               (merged, st2) = match_and_merge vh_content ui_content st1
           in (Some merged, st2))
      | _ \<Rightarrow> (None, st))"

text \<open>
  \<open>HybridUIParser.get_statistics\<close>. \<open>match_rate\<close> is the number the source renders with
  one decimal and a percent sign; the literal \<open>"0%"\<close> is 0.
\<close>

record statistics =
  matched :: nat
  unmatched :: nat
  total :: nat
  match_rate :: rat

definition get_statistics :: "parser_state \<Rightarrow> statistics" where
  "get_statistics st =
     (let total = matched_count st + unmatched_count st
      in \<lparr>matched = matched_count st,
          unmatched = unmatched_count st,
          total = total,
          match_rate = (if total > 0 then of_nat (matched_count st) / of_nat total * 100 else 0)\<rparr>)"

text \<open>Number of nodes of a tree.\<close>

fun count_nodes :: "node \<Rightarrow> nat" where
  "count_nodes (Node i cs) = 1 + sum_list (map count_nodes cs)"

section \<open>Characters, numbers and the regular expressions of the parsers\<close>

text \<open>
  Character classes are given by character codes. For characters below 256 the class
  \<open>\d\<close> of Python's \<open>re\<close> is \<open>0-9\<close>, and \<open>str.isspace\<close> holds for the codes 9-13, 28-32,
  133 and 160.
\<close>

definition is_digit :: "char \<Rightarrow> bool" where
  "is_digit c = (let n = (of_char c :: nat) in 48 \<le> n \<and> n \<le> 57)"

definition is_lower :: "char \<Rightarrow> bool" where
  "is_lower c = (let n = (of_char c :: nat) in 97 \<le> n \<and> n \<le> 122)"

definition is_upper :: "char \<Rightarrow> bool" where
  "is_upper c = (let n = (of_char c :: nat) in 65 \<le> n \<and> n \<le> 90)"

definition is_hex :: "char \<Rightarrow> bool" where
  "is_hex c = (let n = (of_char c :: nat) in (48 \<le> n \<and> n \<le> 57) \<or> (97 \<le> n \<and> n \<le> 102))"

definition is_space :: "char \<Rightarrow> bool" where
  "is_space c = (let n = (of_char c :: nat)
                 in (9 \<le> n \<and> n \<le> 13) \<or> (28 \<le> n \<and> n \<le> 32) \<or> n = 133 \<or> n = 160)"

text \<open>\<open>[a-zA-Z0-9.$_]\<close> and \<open>[a-zA-Z0-9_]\<close>.\<close>

definition is_class_char :: "char \<Rightarrow> bool" where
  "is_class_char c = (is_lower c \<or> is_upper c \<or> is_digit c \<or> c = CHR ''.'' \<or> c = CHR ''$''
                      \<or> c = CHR ''_'')"

definition is_id_char :: "char \<Rightarrow> bool" where
  "is_id_char c = (is_lower c \<or> is_upper c \<or> is_digit c \<or> c = CHR ''_'')"

text \<open>\<open>int(s)\<close> on a run of digits, and \<open>str(n)\<close>.\<close>

definition int_of_digits :: "string \<Rightarrow> int" where
  "int_of_digits ds = foldl (\<lambda>a c. 10 * a + (int (of_char c) - 48)) 0 ds"

definition digit_char :: "nat \<Rightarrow> char" where
  "digit_char d = ''0123456789'' ! (d mod 10)"

fun str_nat :: "nat \<Rightarrow> string" where
  "str_nat n = (if n < 10 then [digit_char n]
                else str_nat (n div 10) @ [digit_char (n mod 10)])"

definition str_int :: "int \<Rightarrow> string" where
  "str_int i = (if i < 0 then CHR ''-'' # str_nat (nat (- i)) else str_nat (nat i))"

text \<open>\<open>s.lstrip()\<close>, \<open>s.strip()\<close> and \<open>s.split('\n')\<close>.\<close>

definition lstrip :: "string \<Rightarrow> string" where
  "lstrip s = dropWhile is_space s"

definition strip :: "string \<Rightarrow> string" where
  "strip s = rev (dropWhile is_space (rev (dropWhile is_space s)))"

fun split_lines_from :: "string \<Rightarrow> string \<Rightarrow> string list" where
  "split_lines_from cur [] = [rev cur]"
| "split_lines_from cur (c # cs) =
     (if c = CHR 0x0A then rev cur # split_lines_from [] cs
      else split_lines_from (c # cur) cs)"

definition split_lines :: "string \<Rightarrow> string list" where
  "split_lines s = split_lines_from [] s"

text \<open>
  \<open>re.findall(r'\d+', s)\<close>: the maximal runs of digits, left to right. \<open>cur\<close> is the
  current run, reversed.
\<close>

fun findall_digits_from :: "string \<Rightarrow> string \<Rightarrow> string list" where
  "findall_digits_from cur [] = (if cur = [] then [] else [rev cur])"
| "findall_digits_from cur (c # cs) =
     (if is_digit c then findall_digits_from (c # cur) cs
      else (if cur = [] then [] else [rev cur]) @ findall_digits_from [] cs)"

definition findall_digits :: "string \<Rightarrow> string list" where
  "findall_digits s = findall_digits_from [] s"

text \<open>
  The pattern \<open>(\d+),(\d+)-(\d+),(\d+)\<close> matched at the start of a string
  (\<open>re.match\<close>). Each \<open>\d+\<close> takes a maximal run of digits: a shorter run would have to
  be followed by a digit where the pattern wants a comma or a dash. The result is the four
  groups.
\<close>

definition match_digits :: "string \<Rightarrow> (string \<times> string) option" where
  "match_digits s =
     (let ds = takeWhile is_digit s in if ds = [] then None else Some (ds, dropWhile is_digit s))"

definition match_char :: "char \<Rightarrow> string \<Rightarrow> string option" where
  "match_char c s = (case s of [] \<Rightarrow> None | d # ds \<Rightarrow> if d = c then Some ds else None)"

definition match_bounds :: "string \<Rightarrow> (string \<times> string \<times> string \<times> string) option" where
  "match_bounds s =
     (case match_digits s of None \<Rightarrow> None | Some (g1, r1) \<Rightarrow>
     (case match_char (CHR '','') r1 of None \<Rightarrow> None | Some r2 \<Rightarrow>
     (case match_digits r2 of None \<Rightarrow> None | Some (g2, r3) \<Rightarrow>
     (case match_char (CHR ''-'') r3 of None \<Rightarrow> None | Some r4 \<Rightarrow>
     (case match_digits r4 of None \<Rightarrow> None | Some (g3, r5) \<Rightarrow>
     (case match_char (CHR '','') r5 of None \<Rightarrow> None | Some r6 \<Rightarrow>
     (case match_digits r6 of None \<Rightarrow> None | Some (g4, r7) \<Rightarrow> Some (g1, g2, g3, g4))))))))"

text \<open>\<open>re.search\<close> with the same pattern: the leftmost position where it matches.\<close>

fun search_bounds :: "string \<Rightarrow> (string \<times> string \<times> string \<times> string) option" where
  "search_bounds [] = None"
| "search_bounds (c # cs) =
     (case match_bounds (c # cs) of Some g \<Rightarrow> Some g | None \<Rightarrow> search_bounds cs)"

text \<open>\<open>group(0)\<close> of a match of the bounds pattern: the matched text.\<close>

definition bounds_group0 :: "string \<times> string \<times> string \<times> string \<Rightarrow> string" where
  "bounds_group0 g = (case g of (g1, g2, g3, g4) \<Rightarrow> g1 @ '','' @ g2 @ ''-'' @ g3 @ '','' @ g4)"

text \<open>
  The pattern \<open>#[a-f0-9]+ (?:app|android):id/([a-zA-Z0-9_]+)\<close> at the start of a string,
  and its leftmost match (\<open>re.search\<close>). The result is group 1.
\<close>

definition match_prefix :: "string \<Rightarrow> string \<Rightarrow> string option" where
  "match_prefix p s = (if startswith s p then Some (drop (length p) s) else None)"

definition match_alternative :: "string \<Rightarrow> string option" where
  "match_alternative s =
     (case match_prefix ''app'' s of Some r \<Rightarrow> Some r | None \<Rightarrow> match_prefix ''android'' s)"

definition match_id :: "string \<Rightarrow> string option" where
  "match_id s =
     (case match_char (CHR ''#'') s of None \<Rightarrow> None | Some r1 \<Rightarrow>
     (if takeWhile is_hex r1 = [] then None else
     (case match_char (CHR '' '') (dropWhile is_hex r1) of None \<Rightarrow> None | Some r2 \<Rightarrow>
     (case match_alternative r2 of None \<Rightarrow> None | Some r3 \<Rightarrow>
     (case match_prefix '':id/'' r3 of None \<Rightarrow> None | Some r4 \<Rightarrow>
     (if takeWhile is_id_char r4 = [] then None else Some (takeWhile is_id_char r4)))))))"

fun search_id :: "string \<Rightarrow> string option" where
  "search_id [] = None"
| "search_id (c # cs) =
     (case match_id (c # cs) of Some g \<Rightarrow> Some g | None \<Rightarrow> search_id cs)"

text \<open>The pattern \<open>\{([a-f0-9]+)\<close>, leftmost match, group 1.\<close>

fun search_hash :: "string \<Rightarrow> string option" where
  "search_hash [] = None"
| "search_hash (c # cs) =
     (if c = CHR ''{'' \<and> takeWhile is_hex cs \<noteq> [] then Some (takeWhile is_hex cs)
      else search_hash cs)"

section \<open>Attribute parser\<close>

text \<open>
  An element of the XML document: its attributes and its child elements.
  \<open>UIParser._parse_node\<close> creates one dict per element; the counter that is threaded
  through numbers the dicts in the order of their creation and gives each its identity.
\<close>

datatype xml = Element (attrib: "(string \<times> string) list") (elems: "xml list")

definition get_attr :: "(string \<times> string) list \<Rightarrow> string \<Rightarrow> string \<Rightarrow> string" where
  "get_attr a k d = (case map_of a k of None \<Rightarrow> d | Some v \<Rightarrow> v)"

definition make_geometry :: "int \<Rightarrow> int \<Rightarrow> int \<Rightarrow> int \<Rightarrow> geometry" where
  "make_geometry l t r b =
     \<lparr>x1 = l, y1 = t, x2 = r, y2 = b,
      center_x = (l + r) div 2, center_y = (t + b) div 2,
      width = r - l, height = b - t\<rparr>"

definition parse_bounds_attr :: "string \<Rightarrow> geometry option" where
  "parse_bounds_attr bounds_str =
     (if bounds_str \<noteq> []
      then (case findall_digits bounds_str of
              [m0, m1, m2, m3] \<Rightarrow>
                Some (make_geometry (int_of_digits m0) (int_of_digits m1)
                                    (int_of_digits m2) (int_of_digits m3))
            | _ \<Rightarrow> None)
      else None)"

definition element_info :: "(string \<times> string) list \<Rightarrow> nat \<Rightarrow> node_info" where
  "element_info a obj =
     \<lparr>class_name = get_attr a ''class'' [],
      package = get_attr a ''package'' [],
      node_text = get_attr a ''text'' [],
      resource_id = get_attr a ''resource-id'' [],
      content_desc = get_attr a ''content-desc'' [],
      bounds = get_attr a ''bounds'' [],
      clickable = get_attr a ''clickable'' ''false'',
      enabled = get_attr a ''enabled'' ''true'',
      focusable = get_attr a ''focusable'' ''false'',
      scrollable = get_attr a ''scrollable'' ''false'',
      focused = Some (get_attr a ''focused'' ''false''),
      long_clickable = Some (get_attr a ''long-clickable'' ''false''),
      selected = Some (get_attr a ''selected'' ''false''),
      checkable = Some (get_attr a ''checkable'' ''false''),
      checked = Some (get_attr a ''checked'' ''false''),
      node_index = get_attr a ''index'' ''0'',
      geom = parse_bounds_attr (get_attr a ''bounds'' []),
      text_source = None,
      info_supplemented = None,
      text_matched = None,
      ident = obj\<rparr>"

fun parse_node :: "xml \<Rightarrow> nat \<Rightarrow> node \<times> nat"
  and parse_nodes :: "xml list \<Rightarrow> nat \<Rightarrow> node list \<times> nat"
where
  "parse_node (Element a es) obj =
     (let (cs, obj') = parse_nodes es (obj + 1) in (Node (element_info a obj) cs, obj'))"
| "parse_nodes [] obj = ([], obj)"
| "parse_nodes (e # es) obj =
     (let (c, obj1) = parse_node e obj;
          (cs, obj2) = parse_nodes es obj1
      in (c # cs, obj2))"

text \<open>
  \<open>UIParser.parse_ui_xml\<close>: \<open>None\<close> as the argument is a file that \<open>ET.parse\<close> rejects
  (the exception is caught and \<open>None\<close> returned).
\<close>

definition parse_ui_xml :: "xml option \<Rightarrow> node option" where
  "parse_ui_xml xml_file =
     (case xml_file of None \<Rightarrow> None | Some e \<Rightarrow> Some (fst (parse_node e 0)))"

section \<open>Geometry parser\<close>

text \<open>
  The dict \<open>view_info\<close>. \<open>_parse_line\<close> fills the first part; \<open>parse\<close> adds
  \<open>absolute_bounds\<close>, \<open>parent_bounds\<close>, \<open>indent\<close>, \<open>level\<close> and \<open>original_line\<close>.
\<close>

record bounds_parsed =
  bp_left :: int
  bp_top :: int
  bp_right :: int
  bp_bottom :: int

record parsed_line =
  vi_class :: string
  vi_bounds :: string
  vi_bounds_parsed :: bounds_parsed
  vi_resource_id :: "string option"
  vi_instance_hash :: "string option"
  vi_visible :: bool
  vi_focusable :: bool
  vi_enabled :: bool
  vi_clickable :: bool

record view_info = parsed_line +
  absolute_bounds :: string
  parent_bounds :: "string option"
  indent :: nat
  level :: nat
  original_line :: string

definition parse_line :: "string \<Rightarrow> parsed_line option" where
  "parse_line line =
     (let cls = takeWhile is_class_char line
      in if cls = [] then None
         else (case search_bounds line of
                 None \<Rightarrow> None
               | Some (g1, g2, g3, g4) \<Rightarrow>
                   Some \<lparr>vi_class = cls,
                         vi_bounds = bounds_group0 (g1, g2, g3, g4),
                         vi_bounds_parsed = \<lparr>bp_left = int_of_digits g1, bp_top = int_of_digits g2,
                                             bp_right = int_of_digits g3,
                                             bp_bottom = int_of_digits g4\<rparr>,
                         vi_resource_id = search_id line,
                         vi_instance_hash = search_hash line,
                         vi_visible = py_in ''V.'' line,
                         vi_focusable = py_in ''.F'' line,
                         vi_enabled = py_in ''.E'' line,
                         vi_clickable = (py_in ''.C'' line \<or> py_in ''Button'' cls
                                         \<or> py_in ''TextView'' cls)\<rparr>))"

definition FILTER_IDS :: "string list" where
  "FILTER_IDS = [''action_mode_bar_stub'', ''navigationBarBackground'', ''statusBarBackground'']"

definition FILTER_CLASSES :: "string list" where
  "FILTER_CLASSES = [''android.view.IndicatorBar'']"

definition should_filter :: "parsed_line \<Rightarrow> bool" where
  "should_filter vi =
     ((case vi_resource_id vi of
         None \<Rightarrow> False
       | Some rid \<Rightarrow> rid \<noteq> [] \<and> list_ex (\<lambda>filter_id. py_in filter_id rid) FILTER_IDS)
      \<or> (vi_class vi \<noteq> [] \<and> list_ex (\<lambda>filter_class. filter_class = vi_class vi) FILTER_CLASSES)
      \<or> (let b = vi_bounds_parsed vi;
              w = bp_right b - bp_left b;
              h = bp_bottom b - bp_top b
          in w = 0 \<and> h = 0))"

definition calculate_absolute_bounds :: "string \<Rightarrow> string \<Rightarrow> string" where
  "calculate_absolute_bounds parent_b child_b =
     (case match_bounds parent_b of
        None \<Rightarrow> child_b
      | Some (p1, p2, p3, p4) \<Rightarrow>
          (case match_bounds child_b of
             None \<Rightarrow> child_b
           | Some (c1, c2, c3, c4) \<Rightarrow>
               (let p_left = int_of_digits p1; p_top = int_of_digits p2;
                    c_left = int_of_digits c1; c_top = int_of_digits c2;
                    c_right = int_of_digits c3; c_bottom = int_of_digits c4
                in str_int (p_left + c_left) @ '','' @ str_int (p_top + c_top) @ ''-'' @
                   str_int (p_left + c_right) @ '','' @ str_int (p_top + c_bottom))))"

definition str_bool_lower :: "bool \<Rightarrow> string" where
  "str_bool_lower b = (if b then ''true'' else ''false'')"

text \<open>
  \<open>ViewHierarchyParser._create_ui_node\<close>. Geometry nodes are not marked by the merge;
  their \<open>ident\<close> is 0.
\<close>

definition create_ui_node :: "view_info \<Rightarrow> node_info" where
  "create_ui_node vi =
     (let rid = (case vi_resource_id vi of
                   None \<Rightarrow> []
                 | Some r \<Rightarrow> if r = [] then []
                             else if r = ''content'' then ''app:id/content''
                             else ''app:id/'' @ r);
          n = \<lparr>class_name = vi_class vi,
                package = [],
                node_text = [],
                resource_id = rid,
                content_desc = [],
                bounds = [],
                clickable = str_bool_lower (vi_clickable vi),
                enabled = str_bool_lower (vi_enabled vi),
                focusable = str_bool_lower (vi_focusable vi),
                scrollable = ''false'',
                focused = None,
                long_clickable = None,
                selected = None,
                checkable = None,
                checked = None,
                node_index = ''0'',
                geom = None,
                text_source = None,
                info_supplemented = None,
                text_matched = None,
                ident = 0\<rparr>
      in (case match_bounds (absolute_bounds vi) of
            Some (g1, g2, g3, g4) \<Rightarrow>
              (let l = int_of_digits g1; t = int_of_digits g2;
                   r = int_of_digits g3; b = int_of_digits g4
               in n\<lparr>bounds := ''['' @ str_int l @ '','' @ str_int t @ '']['' @ str_int r @ '',''
                               @ str_int b @ '']'',
                     geom := Some (make_geometry l t r b)\<rparr>)
          | None \<Rightarrow>
              n\<lparr>geom := Some \<lparr>x1 = 0, y1 = 0, x2 = 0, y2 = 0, center_x = 0, center_y = 0,
                               width = 0, height = 0\<rparr>\<rparr>))"

definition create_virtual_root :: node_info where
  "create_virtual_root =
     \<lparr>class_name = ''RootNode'', package = [], node_text = [], resource_id = [],
      content_desc = [], bounds = ''[0,0][0,0]'', clickable = ''false'', enabled = ''true'',
      focusable = ''false'', scrollable = ''false'', focused = None, long_clickable = None,
      selected = None, checkable = None, checked = None, node_index = ''0'',
      geom = Some \<lparr>x1 = 0, y1 = 0, x2 = 0, y2 = 0, center_x = 0, center_y = 0,
                   width = 0, height = 0\<rparr>,
      text_source = None, info_supplemented = None, text_matched = None, ident = 0\<rparr>"

text \<open>
  The parser builds the tree by appending to the \<open>children\<close> list of dicts that are at the
  same time on \<open>nodes_stack\<close> and inside the tree. The dicts live in a store: a list of
  cells, a cell holding the keys of a node and the addresses of its children. Cell 0 is
  \<open>self.root\<close>. The two stacks have their top at the head of the list. -1 in
  \<open>skip_children_until_indent\<close> means that nothing is being skipped.
\<close>

record cell =
  cell_info :: node_info
  cell_children :: "nat list"

record parse_state =
  parent_stack :: "view_info list"
  nodes_stack :: "nat list"
  skip_children_until_indent :: int
  cells :: "cell list"
  views :: "view_info list"

definition init_parse_state :: parse_state where
  "init_parse_state =
     \<lparr>parent_stack = [], nodes_stack = [], skip_children_until_indent = -1,
      cells = [\<lparr>cell_info = create_virtual_root, cell_children = []\<rparr>], views = []\<rparr>"

definition indent_level :: "string \<Rightarrow> nat" where
  "indent_level line = length line - length (lstrip line)"

text \<open>
  The loop \<open>while len(parent_stack) > 0 and parent_stack[-1]['indent'] >= indent_level\<close>.
\<close>

fun pop_stacks :: "nat \<Rightarrow> view_info list \<Rightarrow> nat list \<Rightarrow> view_info list \<times> nat list" where
  "pop_stacks ind [] ns = ([], ns)"
| "pop_stacks ind (p # ps) ns =
     (if indent p \<ge> ind then pop_stacks ind ps (case ns of [] \<Rightarrow> [] | n # ns' \<Rightarrow> ns')
      else (p # ps, ns))"

definition append_child :: "cell list \<Rightarrow> nat \<Rightarrow> nat \<Rightarrow> cell list" where
  "append_child cs parent child =
     cs[parent := (cs ! parent)\<lparr>cell_children := cell_children (cs ! parent) @ [child]\<rparr>]"

text \<open>One iteration of the loop of \<open>ViewHierarchyParser.parse\<close> over the lines.\<close>

definition is_skipped_line :: "string \<Rightarrow> bool" where
  "is_skipped_line line = (strip line = [] \<or> py_in ''View Hierarchy:'' line)"

definition parse_step :: "parse_state \<Rightarrow> string \<Rightarrow> parse_state" where
  "parse_step st line =
     (if is_skipped_line line then st
      else
        let ind = indent_level line in
        if skip_children_until_indent st \<ge> 0 \<and> int ind > skip_children_until_indent st then st
        else
          let st0 = (if skip_children_until_indent st \<ge> 0
                     then st\<lparr>skip_children_until_indent := -1\<rparr> else st)
          in (case parse_line (strip line) of
                None \<Rightarrow> st0
              | Some pl \<Rightarrow>
                  if should_filter pl then st0\<lparr>skip_children_until_indent := int ind\<rparr>
                  else
                    let (ps, ns) = pop_stacks ind (parent_stack st0) (nodes_stack st0);
                        abs_b = (case ps of
                                 [] \<Rightarrow> vi_bounds pl
                               | parent # rest \<Rightarrow>
                                   calculate_absolute_bounds (absolute_bounds parent) (vi_bounds pl));
                        pb = (case ps of [] \<Rightarrow> None | parent # rest \<Rightarrow> Some (absolute_bounds parent));
                        vi = parsed_line.extend pl
                               (view_info.fields abs_b pb ind (length ps) line);
                        ui_node = create_ui_node vi;
                        st1 = st0\<lparr>parent_stack := ps, nodes_stack := ns\<rparr>
                    in if (case geom ui_node of
                             Some g \<Rightarrow> width g = 0 \<and> height g = 0 | None \<Rightarrow> False)
                       then st1\<lparr>skip_children_until_indent := int ind\<rparr>
                       else
                         let addr = length (cells st1);
                             parent_addr = (case ns of [] \<Rightarrow> 0 | p # rest \<Rightarrow> p);
                             cs = append_child
                                    (cells st1 @ [\<lparr>cell_info = ui_node, cell_children = []\<rparr>])
                                    parent_addr addr
                         in st1\<lparr>nodes_stack := addr # ns,
                                parent_stack := vi # ps,
                                cells := cs,
                                views := views st1 @ [vi]\<rparr>))"

definition parse :: "string \<Rightarrow> parse_state" where
  "parse hierarchy_text = foldl parse_step init_parse_state (split_lines hierarchy_text)"

text \<open>\<open>to_ui_format\<close>: the address of the node that is returned.\<close>

definition to_ui_format :: "parse_state \<Rightarrow> nat" where
  "to_ui_format st =
     (case cell_children (cells st ! 0) of [c] \<Rightarrow> c | _ \<Rightarrow> 0)"

text \<open>
  The tree below an address of the store, as the dict at that address shows it. Children
  are created after their parent, so their addresses are larger; the descent follows only
  such addresses.
\<close>

function tree_at :: "cell list \<Rightarrow> nat \<Rightarrow> node" where
  "tree_at cs a =
     Node (cell_info (cs ! a))
          (map (tree_at cs) (filter (\<lambda>c. a < c \<and> c < length cs) (cell_children (cs ! a))))"
  by pat_completeness auto
termination
  by (relation "measure (\<lambda>(cs, a). length cs - a)") auto

text \<open>\<open>HybridUIParser.parse_view_hierarchy\<close>: the value stored in \<open>self.vh_tree\<close>.\<close>

definition parse_view_hierarchy :: "string \<Rightarrow> node" where
  "parse_view_hierarchy hierarchy_text =
     (let st = parse hierarchy_text in tree_at (cells st) (to_ui_format st))"

section \<open>Dispatcher of the hybrid mode\<close>

text \<open>
  \<open>CarScreenMirrorTool.dumpHierarchy\<close> and the three modes it starts. What the device
  answers is an argument. \<open>ui_dump\<close> is the outcome of \<open>ADBHelper.dump_ui_automator\<close>:
  \<open>None\<close>, or a path at which there is no file, or a path to a file whose content is
  a document or is rejected by the XML parser. \<open>current_activity\<close> is what
  \<open>ADBHelper.get_current_activity\<close> returns and \<open>view_hierarchy\<close> what
  \<open>ADBHelper.get_view_hierarchy\<close> returns for an activity name. A mode that hands over to
  another mode asks the device again: a session holds the answers to the first and to the
  second round of questions, and what the user enters in the dialog that asks for an
  activity name (the text and whether it was confirmed).
\<close>

datatype dump_file = Not_On_Disk | On_Disk "xml option"

record device =
  ui_dump :: "dump_file option"
  current_activity :: "string option"
  view_hierarchy :: "string \<Rightarrow> string option"

record session =
  at_first :: device
  at_retry :: device
  dialog :: "string \<times> bool"

text \<open>\<open>s.split(sep)\<close> for a separator of one character. \<open>cur\<close> is the current part, reversed.\<close>

fun split_char_from :: "char \<Rightarrow> string \<Rightarrow> string \<Rightarrow> string list" where
  "split_char_from sep cur [] = [rev cur]"
| "split_char_from sep cur (c # cs) =
     (if c = sep then rev cur # split_char_from sep [] cs
      else split_char_from sep (c # cur) cs)"

definition split_char :: "char \<Rightarrow> string \<Rightarrow> string list" where
  "split_char sep s = split_char_from sep [] s"

text \<open>The activity name that is looked up, from \<open>package/activity\<close>.\<close>

definition activity_name_of :: "string \<Rightarrow> string" where
  "activity_name_of current_activity_info =
     (let parts = split_char (CHR ''/'') current_activity_info;
          activity_name = (if length parts > 1 then parts ! 1 else parts ! 0)
      in if py_in ''.'' activity_name then split_last ''.'' activity_name else activity_name)"

text \<open>\<open>not hierarchy_text\<close> is the negation of this.\<close>

definition truthy :: "string option \<Rightarrow> bool" where
  "truthy s = (case s of None \<Rightarrow> False | Some t \<Rightarrow> t \<noteq> [])"

text \<open>The value of \<open>hierarchy_text\<close> after the automatic lookup of the activity.\<close>

definition fetch_hierarchy :: "device \<Rightarrow> string option" where
  "fetch_hierarchy d =
     (case current_activity d of
        None \<Rightarrow> None
      | Some current_activity_info \<Rightarrow>
          if current_activity_info \<noteq> [] \<and> py_in ''/'' current_activity_info
          then view_hierarchy d (activity_name_of current_activity_info)
          else None)"

text \<open>
  The modes take the value of \<open>self.hierarchy_data\<close> and return its new value. The
  hybrid mode returns in addition the statistics it reports, if it reports any.
\<close>

definition parseUIAutomatorMode :: "device \<Rightarrow> node option \<Rightarrow> node option" where
  "parseUIAutomatorMode d hierarchy_data =
     (case ui_dump d of
        Some (On_Disk doc) \<Rightarrow> parse_ui_xml doc
      | _ \<Rightarrow> hierarchy_data)"

definition parseViewHierarchyMode :: "device \<Rightarrow> string \<times> bool \<Rightarrow> node option \<Rightarrow> node option" where
  "parseViewHierarchyMode d dlg hierarchy_data =
     (let hierarchy_text = fetch_hierarchy d;
          hierarchy_text =
            (if \<not> truthy hierarchy_text
             then (case dlg of
                     (activity_input, ok) \<Rightarrow>
                       if ok \<and> activity_input \<noteq> [] then view_hierarchy d activity_input
                       else hierarchy_text)
             else hierarchy_text)
      in case hierarchy_text of
           None \<Rightarrow> hierarchy_data
         | Some text \<Rightarrow>
             if text = [] then hierarchy_data
             else (let st = parse text
                   in if views st \<noteq> [] then Some (tree_at (cells st) (to_ui_format st))
                      else hierarchy_data))"

definition parseHybridMode ::
  "session \<Rightarrow> node option \<Rightarrow> node option \<times> statistics option" where
  "parseHybridMode s hierarchy_data =
     (let ui_file = ui_dump (at_first s);
          hierarchy_text = fetch_hierarchy (at_first s)
      in if \<not> truthy hierarchy_text \<and> ui_file = None then (hierarchy_data, None)
         else if \<not> truthy hierarchy_text
         then (parseUIAutomatorMode (at_retry s) hierarchy_data, None)
         else
           (case ui_file of
              Some (On_Disk doc) \<Rightarrow>
                (let vh_tree = parse_view_hierarchy (the hierarchy_text);
                     ui_tree = parse_ui_xml doc;
                     (merged, st) = merge_trees (Some vh_tree) ui_tree init_state
                 in (merged, if merged \<noteq> None then Some (get_statistics st) else None))
            | _ \<Rightarrow> (parseViewHierarchyMode (at_retry s) (dialog s) hierarchy_data, None)))"

datatype ParseMode = HYBRID | UIAUTOMATOR | VIEW_HIERARCHY

text \<open>
  \<open>dumpHierarchy\<close> with a device connected: \<open>self.hierarchy_data\<close> is cleared, then the
  mode runs.
\<close>

definition dumpHierarchy :: "ParseMode \<Rightarrow> session \<Rightarrow> node option \<times> statistics option" where
  "dumpHierarchy parse_mode s =
     (case parse_mode of
        HYBRID \<Rightarrow> parseHybridMode s None
      | UIAUTOMATOR \<Rightarrow> (parseUIAutomatorMode (at_first s) None, None)
      | VIEW_HIERARCHY \<Rightarrow> (parseViewHierarchyMode (at_first s) (dialog s) None, None))"

section \<open>The score as the specification words it\<close>

text \<open>
  The score of the specification, term by term: the id bonus, the class term, the
  child-count similarity and the share of agreeing flags, added from left to right as
  floats. The last path segment of a class name is what follows its last dot. It is
  compared with \<open>calculate_match_score\<close> below.
\<close>

definition last_segment :: "string \<Rightarrow> string" where
  "last_segment s = rev (takeWhile (\<lambda>c. c \<noteq> CHR ''.'') (rev s))"

definition same_class_family :: "string \<Rightarrow> string \<Rightarrow> bool" where
  "same_class_family a b =
     (\<exists>g \<in> set type_groups.
        (\<exists>m \<in> set (snd g). py_in m a) \<and> (\<exists>m \<in> set (snd g). py_in m b))"

definition child_count_similarity :: "nat \<Rightarrow> nat \<Rightarrow> rat" where
  "child_count_similarity a b =
     (if a = b then 1
      else if a \<noteq> 0 \<and> b \<noteq> 0 then truediv (min a b) (max a b)
      else 0)"

definition agreeing_flags :: "node_info \<Rightarrow> node_info \<Rightarrow> nat" where
  "agreeing_flags v u =
     (if clickable v = clickable u then 1 else 0) + (if focusable v = focusable u then 1 else 0) +
     (if enabled v = enabled u then 1 else 0) + (if scrollable v = scrollable u then 1 else 0)"

definition id_term :: "bool \<Rightarrow> rat" where
  "id_term from_id_lookup = (if from_id_lookup then round_double (4/10) else 0)"

definition class_term :: "string \<Rightarrow> string \<Rightarrow> rat" where
  "class_term a b =
     (if last_segment a = last_segment b then round_double (3/10)
      else if same_class_family (last_segment a) (last_segment b) then round_double (2/10)
      else 0)"

definition spec_score :: "node \<Rightarrow> node \<Rightarrow> bool \<Rightarrow> rat" where
  "spec_score vh_node ui_node from_id_lookup =
     fadd
       (fadd
          (fadd (id_term from_id_lookup)
                (class_term (class_name (info vh_node)) (class_name (info ui_node))))
          (fmul (round_double (15/100))
                (child_count_similarity (length (children vh_node)) (length (children ui_node)))))
       (fmul (round_double (15/100)) (truediv (agreeing_flags (info vh_node) (info ui_node)) 4))"

section \<open>Notions used in the statements\<close>

text \<open>
  The state of the parser after the counter update of the two branches of
  \<open>_match_and_merge\<close>.
\<close>

definition after_match :: "parser_state \<Rightarrow> node \<Rightarrow> parser_state" where
  "after_match st1 m = st1\<lparr>matched_count := matched_count st1 + 1,
                           match_log := match_log st1 @ [ident (info m)]\<rparr>"

definition after_miss :: "parser_state \<Rightarrow> parser_state" where
  "after_miss st1 = st1\<lparr>unmatched_count := unmatched_count st1 + 1\<rparr>"

text \<open>The node a merge starts from: the content anchor if the tree has one, else the tree.\<close>

definition anchored :: "node \<Rightarrow> node" where
  "anchored t = (case find_content_node t of None \<Rightarrow> t | Some c \<Rightarrow> c)"

text \<open>
  The id suffix under which \<open>_build_ui_index\<close> files a node and \<open>_find_best_match\<close> looks
  it up; \<open>None\<close> when the node has no resource id or its suffix is empty.
\<close>

definition id_suffix_of :: "node \<Rightarrow> string option" where
  "id_suffix_of n =
     (if resource_id (info n) = [] then None
      else (case extract_id_suffix (resource_id (info n)) of
              None \<Rightarrow> None
            | Some s \<Rightarrow> if s = [] then None else Some s))"

text \<open>The nodes of a tree down to a depth, in pre-order.\<close>

fun within_depth :: "nat \<Rightarrow> node \<Rightarrow> node list" where
  "within_depth 0 (Node i cs) = [Node i cs]"
| "within_depth (Suc d) (Node i cs) = Node i cs # concat (map (within_depth d) cs)"

text \<open>
  The candidates in the order of the specification: the unreserved nodes filed under the
  geometry node's id suffix, each with the id bonus, followed by the unreserved nodes at
  depth at most 2 below the context whose score without the bonus is positive.
\<close>

definition id_lookup_candidates :: "parser_state \<Rightarrow> node \<Rightarrow> (node \<times> rat) list" where
  "id_lookup_candidates st vh_node =
     (case id_suffix_of vh_node of
        None \<Rightarrow> []
      | Some s \<Rightarrow>
          (case ui_node_map st s of
             None \<Rightarrow> []
           | Some nodes \<Rightarrow>
               map (\<lambda>n. (n, calculate_match_score vh_node n True))
                   (filter (is_node_available st) nodes)))"

definition subtree_candidates :: "parser_state \<Rightarrow> node \<Rightarrow> node \<Rightarrow> (node \<times> rat) list" where
  "subtree_candidates st vh_node ui_context =
     filter (\<lambda>c. snd c > 0)
       (map (\<lambda>n. (n, calculate_match_score vh_node n False))
            (filter (is_node_available st) (within_depth 2 ui_context)))"

text \<open>The first candidate of a list whose score no candidate of the list exceeds.\<close>

definition first_best :: "(node \<times> rat) list \<Rightarrow> (node \<times> rat) option" where
  "first_best cands = find (\<lambda>c. \<forall>d \<in> set cands. snd d \<le> snd c) cands"

text \<open>The scored, unreserved nodes of a list that \<open>_search_in_subtree\<close> appends.\<close>

definition scored :: "parser_state \<Rightarrow> node \<Rightarrow> node list \<Rightarrow> (node \<times> rat) list" where
  "scored st vh ns =
     filter (\<lambda>c. snd c > 0)
       (map (\<lambda>n. (n, calculate_match_score vh n False)) (filter (is_node_available st) ns))"

text \<open>
  An index entry after more nodes were appended to it, and the identities of a list of
  nodes.
\<close>

definition add_entries :: "node list option \<Rightarrow> node list \<Rightarrow> node list option" where
  "add_entries old new =
     (if new = [] then old else Some ((case old of None \<Rightarrow> [] | Some l \<Rightarrow> l) @ new))"

definition idents :: "node list \<Rightarrow> nat list" where
  "idents ns = map (\<lambda>n. ident (info n)) ns"

text \<open>
  What holds of the parser state throughout a merge pass over the attribute tree \<open>U\<close>: the
  log names no node twice, the logged nodes are exactly the reserved ones, one entry was
  logged per counted match, and the reserved and the indexed nodes are nodes of \<open>U\<close>.
\<close>

definition pass_ok :: "node \<Rightarrow> parser_state \<Rightarrow> bool" where
  "pass_ok U st =
     (distinct (match_log st) \<and> set (match_log st) = used st \<and>
      length (match_log st) = matched_count st \<and>
      used st \<subseteq> set (idents (preorder U)) \<and>
      (\<forall>s l. ui_node_map st s = Some l \<longrightarrow> set l \<subseteq> set (preorder U)))"

section \<open>Notions used in the statements on the geometry parser\<close>


text \<open>The state after the test of \<open>skip_children_until_indent\<close> let a line through.\<close>

definition unskip :: "parse_state \<Rightarrow> parse_state" where
  "unskip st =
     (if skip_children_until_indent st \<ge> 0 then st\<lparr>skip_children_until_indent := -1\<rparr> else st)"

text \<open>A line is passed over as part of a filtered subtree.\<close>

definition in_skipped_subtree :: "parse_state \<Rightarrow> string \<Rightarrow> bool" where
  "in_skipped_subtree st line =
     (skip_children_until_indent st \<ge> 0 \<and> int (indent_level line) > skip_children_until_indent st)"

text \<open>
  The dict \<open>view_info\<close> of a line that is kept, given the parent stack after the pops.
\<close>

definition make_view_info :: "parsed_line \<Rightarrow> view_info list \<Rightarrow> nat \<Rightarrow> string \<Rightarrow> view_info" where
  "make_view_info pl ps ind line =
     parsed_line.extend pl
       (view_info.fields
          (case ps of
             [] \<Rightarrow> vi_bounds pl
           | parent # rest \<Rightarrow> calculate_absolute_bounds (absolute_bounds parent) (vi_bounds pl))
          (case ps of [] \<Rightarrow> None | parent # rest \<Rightarrow> Some (absolute_bounds parent))
          ind (length ps) line)"

definition zero_size :: "node_info \<Rightarrow> bool" where
  "zero_size n = (case geom n of Some g \<Rightarrow> width g = 0 \<and> height g = 0 | None \<Rightarrow> False)"






text \<open>
  The three reasons for which a line is dropped: its resource id contains an entry of
  \<open>FILTER_IDS\<close>, its class is an entry of \<open>FILTER_CLASSES\<close>, its relative bounds have
  width 0 and height 0. \<open>zero_area\<close> is the weaker condition that width times height is 0.
\<close>

definition blocklisted_id :: "parsed_line \<Rightarrow> bool" where
  "blocklisted_id pl =
     (case vi_resource_id pl of
        None \<Rightarrow> False
      | Some rid \<Rightarrow> list_ex (\<lambda>filter_id. py_in filter_id rid) FILTER_IDS)"

definition blocklisted_class :: "parsed_line \<Rightarrow> bool" where
  "blocklisted_class pl = (vi_class pl \<in> set FILTER_CLASSES)"

definition zero_width_and_height :: "parsed_line \<Rightarrow> bool" where
  "zero_width_and_height pl =
     (bp_right (vi_bounds_parsed pl) - bp_left (vi_bounds_parsed pl) = 0 \<and>
      bp_bottom (vi_bounds_parsed pl) - bp_top (vi_bounds_parsed pl) = 0)"

definition zero_area :: "parsed_line \<Rightarrow> bool" where
  "zero_area pl =
     ((bp_right (vi_bounds_parsed pl) - bp_left (vi_bounds_parsed pl)) *
      (bp_bottom (vi_bounds_parsed pl) - bp_top (vi_bounds_parsed pl)) = 0)"

text \<open>
  The state field of a dump line \<open>Class{hash state \<dots>}\<close>: the word after the first blank
  that follows the opening brace. Its letters are the flags of the view; a \<open>C\<close> says that
  the view is clickable.
\<close>

definition state_field :: "string \<Rightarrow> string" where
  "state_field line =
     takeWhile (\<lambda>c. c \<noteq> CHR '' '')
       (drop 1 (dropWhile (\<lambda>c. c \<noteq> CHR '' '') (dropWhile (\<lambda>c. c \<noteq> CHR ''{'') line)))"

section \<open>Example inputs\<close>

text \<open>
  A screen of 100 by 100 pixels with one widget of 10 by 10 pixels inside it, and a widget
  whose bounds attribute is missing.
\<close>

definition hit_xml :: xml where
  "hit_xml =
     Element [(''class'', ''android.widget.FrameLayout''), (''bounds'', ''[0,0][100,100]'')]
       [Element [(''class'', ''android.widget.Button''), (''bounds'', ''[10,10][20,20]'')] [],
        Element [(''class'', ''android.view.View'')] []]"

text \<open>
  Example B of the specification: a geometry line of class \<open>TextView\<close> with id \<open>title\<close>
  and an attribute element with the same id suffix and class and the text \<open>Hello\<close>.
\<close>

definition title_dump :: string where
  "title_dump = ''android.widget.TextView{3f2a V.ED..... 10,20-30,40 #7f0a0001 app:id/title}''"

definition title_xml :: xml where
  "title_xml =
     Element [(''class'', ''android.widget.TextView''), (''resource-id'', ''com.car:id/title''),
              (''text'', ''Hello''), (''clickable'', ''true''), (''bounds'', ''[10,20][30,40]'')] []"

text \<open>
  A container without text: a geometry line of class \<open>FrameLayout\<close> and an attribute
  element of the same class with neither text nor content description.
\<close>

definition frame_dump :: string where
  "frame_dump = ''android.widget.FrameLayout{1c0b V.E...... 0,0-100,100}''"

definition frame_xml :: xml where
  "frame_xml =
     Element [(''class'', ''android.widget.FrameLayout''), (''focusable'', ''true''),
              (''bounds'', ''[0,0][100,100]'')] []"

text \<open>
  A screen with three widgets in the geometry dump (a frame, a title and a plain view
  inside it) and two elements in the attribute document (the frame and the title).
\<close>

definition screen_dump :: string where
  "screen_dump =
     ''View Hierarchy:'' @ [CHR 0x0A] @
     ''android.widget.FrameLayout{1c0b V.E...... 0,0-100,100}'' @ [CHR 0x0A] @
     ''  android.widget.TextView{3f2a V.ED..... 10,20-30,40 #7f0a0001 app:id/title}'' @ [CHR 0x0A] @
     ''  android.view.View{1a V.E...... 50,50-60,60}''"

definition screen_xml :: xml where
  "screen_xml =
     Element [(''class'', ''android.widget.FrameLayout''), (''focusable'', ''true''),
              (''bounds'', ''[0,0][100,100]'')]
       [title_xml]"

text \<open>
  Two candidates with equal scores. The geometry dump has a \<open>TextView\<close> with id \<open>title\<close>
  and one child. In the attribute document the first child of the root is a \<open>TextView\<close>
  without id and with one child; the second is a plain \<open>View\<close> with the id \<open>title\<close> and
  three children. All flags agree.
\<close>

definition tie_dump :: string where
  "tie_dump =
     ''android.widget.TextView{3f2a V.ED..... 0,0-100,50 #7f0a0001 app:id/title}'' @ [CHR 0x0A] @
     ''  android.view.View{1a V.E...... 0,0-10,10}''"

definition tie_xml :: xml where
  "tie_xml =
     Element [(''class'', ''android.widget.FrameLayout'')]
       [Element [(''class'', ''android.widget.TextView''), (''clickable'', ''true'')]
          [Element [(''class'', ''android.view.View'')] []],
        Element [(''class'', ''android.view.View''), (''resource-id'', ''com.car:id/title''),
                 (''clickable'', ''true'')]
          [Element [(''class'', ''android.view.View'')] [],
           Element [(''class'', ''android.view.View'')] [],
           Element [(''class'', ''android.view.View'')] []]]"

text \<open>The state of a fresh parser after \<open>_build_ui_index\<close> on a document.\<close>

definition indexed_state :: "xml \<Rightarrow> parser_state" where
  "indexed_state doc =
     init_state\<lparr>ui_node_map := build_ui_index (fst (parse_node doc 0)) Map.empty\<rparr>"

text \<open>A geometry dump of one plain view.\<close>

definition view_dump :: string where
  "view_dump = ''android.view.View{1a V.E...... 50,50-60,60}''"


text \<open>The line of a status bar background and, indented below it, the line of a child.\<close>

definition status_bar_line :: string where
  "status_bar_line =
     ''android.view.View{5d V.E...... 0,0-100,5 #1020030 android:id/statusBarBackground}''"

definition status_bar_child :: string where
  "status_bar_child = ''  android.view.View{6e V.E...... 0,0-5,5}''"

text \<open>A divider of width 0 and height 10 with a button below it.\<close>

definition zero_width_line :: string where
  "zero_width_line = ''android.view.View{1a V.E...... 0,0-0,10}''"

definition zero_width_dump :: string where
  "zero_width_dump =
     zero_width_line @ [CHR 0x0A] @ ''  android.widget.Button{2b V.E...... 0,0-5,5}''"

text \<open>
  Devices whose foreground activity is \<open>MainActivity\<close>. The first has the geometry dump
  \<open>screen_dump\<close> and the attribute document \<open>screen_xml\<close>; the second lacks the attribute
  file; the third has a file that the XML parser rejects.
\<close>

definition full_device :: device where
  "full_device =
     \<lparr>ui_dump = Some (On_Disk (Some screen_xml)),
      current_activity = Some ''com.car/com.car.MainActivity'',
      view_hierarchy = (\<lambda>a. if a = ''MainActivity'' then Some screen_dump else None)\<rparr>"

definition no_document_device :: device where
  "no_document_device = full_device\<lparr>ui_dump := None\<rparr>"

definition rejected_document_device :: device where
  "rejected_document_device = full_device\<lparr>ui_dump := Some (On_Disk None)\<rparr>"

text \<open>A session with a device that answers both rounds alike; the dialog is cancelled.\<close>

definition steady :: "device \<Rightarrow> session" where
  "steady d = \<lparr>at_first = d, at_retry = d, dialog = ([], False)\<rparr>"

text \<open>
  Two candidates whose scores are equal as sums of decimals and differ as floats. The
  geometry dump has a \<open>TextView\<close> without id and with one child. In the attribute document
  the first child of the root is a \<open>TextView\<close> with one child on which two of the four
  flags differ; the second is a \<open>TextView\<close> with two children on which all flags agree.
  The first scores 0.3 + 0.15 + 0.15 * (2 / 4), the second 0.3 + 0.15 * (1 / 2) + 0.15 * (4 / 4).
\<close>

definition near_tie_dump :: string where
  "near_tie_dump =
     ''android.widget.TextView{3f2a V.ED..... 0,0-100,50}'' @ [CHR 0x0A] @
     ''  android.view.View{1a V.E...... 0,0-10,10}''"

definition near_tie_xml :: xml where
  "near_tie_xml =
     Element [(''class'', ''android.widget.FrameLayout'')]
       [Element [(''class'', ''android.widget.TextView''), (''clickable'', ''true''),
                 (''focusable'', ''true''), (''scrollable'', ''true'')]
          [Element [(''class'', ''android.view.View'')] []],
        Element [(''class'', ''android.widget.TextView''), (''clickable'', ''true'')]
          [Element [(''class'', ''android.view.View'')] [],
           Element [(''class'', ''android.view.View'')] []]]"

text \<open>
  A check box whose state field has no \<open>C\<close>, and a clickable view with scroll bars, in
  whose state field the \<open>C\<close> follows a \<open>V\<close>.
\<close>

definition checkbox_line :: string where
  "checkbox_line = ''android.widget.CheckBox{5d V.ED..... 0,0-10,10}''"

definition scrolling_view_line :: string where
  "scrolling_view_line = ''android.view.View{6e VFEDHVC.. 0,0-10,10}''"

section \<open>Double-precision numbers: rounding\<close>

lemma floor_log2_bounds:
  assumes "0 < x"
  shows "2 powi (floor_log2 x) \<le> x" and "x < 2 powi (floor_log2 x + 1)"
proof -
  obtain p q where pq: "quotient_of x = (p, q)" by (cases "quotient_of x")
  have q: "0 < q" using quotient_of_denom_pos[OF pq] .
  have x: "x = of_int p / of_int q" using quotient_of_div[OF pq] .
  have p: "0 < p" using assms q x by (simp add: zero_less_divide_iff)
  define bp where "bp = bitlen p"
  define bq where "bq = bitlen q"
  have bpp: "0 < bp" using p bitlen_eq_zero_iff[of p] bitlen_nonneg[of p] by (simp add: bp_def)
  have bqp: "0 < bq" using q bitlen_eq_zero_iff[of q] bitlen_nonneg[of q] by (simp add: bq_def)
  have pb: "2 ^ nat (bp - 1) \<le> p" "p < 2 ^ nat bp"
    using bitlen_bounds[OF p] by (simp_all add: bp_def)
  have qb: "2 ^ nat (bq - 1) \<le> q" "q < 2 ^ nat bq"
    using bitlen_bounds[OF q] by (simp_all add: bq_def)
  have pr: "(2::rat) powi (bp - 1) \<le> of_int p" "(of_int p :: rat) < 2 powi bp"
  proof -
    have "(of_int (2 ^ nat (bp - 1)) :: rat) \<le> of_int p" using pb(1) by (simp only: of_int_le_iff)
    then show "(2::rat) powi (bp - 1) \<le> of_int p" using bpp by (simp add: power_int_def)
    have "(of_int p :: rat) < of_int (2 ^ nat bp)" using pb(2) by (simp only: of_int_less_iff)
    then show "(of_int p :: rat) < 2 powi bp" using bpp by (simp add: power_int_def)
  qed
  have qr: "(2::rat) powi (bq - 1) \<le> of_int q" "(of_int q :: rat) < 2 powi bq"
  proof -
    have "(of_int (2 ^ nat (bq - 1)) :: rat) \<le> of_int q" using qb(1) by (simp only: of_int_le_iff)
    then show "(2::rat) powi (bq - 1) \<le> of_int q" using bqp by (simp add: power_int_def)
    have "(of_int q :: rat) < of_int (2 ^ nat bq)" using qb(2) by (simp only: of_int_less_iff)
    then show "(of_int q :: rat) < 2 powi bq" using bqp by (simp add: power_int_def)
  qed
  define e where "e = bp - bq"
  have qpos: "(0::rat) < of_int q" using q by simp
  have ppos: "(0::rat) < of_int p" using p by simp
  have up: "x < 2 powi (e + 1)"
  proof -
    have "x * of_int q = of_int p" using x qpos by simp
    also have "\<dots> < 2 powi bp" by (rule pr(2))
    also have "\<dots> = 2 powi (e + 1) * 2 powi (bq - 1)"
      by (simp add: e_def power_int_add[symmetric])
    also have "\<dots> \<le> 2 powi (e + 1) * of_int q"
      using qr(1) by (simp add: mult_left_mono)
    finally show ?thesis using qpos by simp
  qed
  have lo: "2 powi (e - 1) < x"
  proof -
    have "(2::rat) powi (e - 1) * of_int q < 2 powi (e - 1) * 2 powi bq"
      using qr(2) by (simp add: mult_strict_left_mono)
    also have "\<dots> = 2 powi (bp - 1)" by (simp add: e_def power_int_add[symmetric])
    also have "\<dots> \<le> of_int p" by (rule pr(1))
    also have "\<dots> = x * of_int q" using x qpos by simp
    finally show ?thesis using qpos by simp
  qed
  have fl: "floor_log2 x = (if 2 powi e \<le> x then e else e - 1)"
    by (simp add: floor_log2_def pq Let_def e_def bp_def bq_def)
  show "2 powi (floor_log2 x) \<le> x" using lo by (simp add: fl)
  show "x < 2 powi (floor_log2 x + 1)" using up by (auto simp: fl)
qed

lemma floor_log2_mono:
  assumes "0 < x" "x \<le> y"
  shows "floor_log2 x \<le> floor_log2 y"
proof (rule ccontr)
  assume "\<not> floor_log2 x \<le> floor_log2 y"
  then have "floor_log2 y + 1 \<le> floor_log2 x" by simp
  then have "(2::rat) powi (floor_log2 y + 1) \<le> 2 powi (floor_log2 x)"
    by (simp add: power_int_increasing)
  also have "\<dots> \<le> x" using floor_log2_bounds(1)[OF assms(1)] .
  also have "\<dots> \<le> y" by (rule assms(2))
  finally show False using floor_log2_bounds(2)[of y] assms by simp
qed

lemma round_half_even_range:
  "round_half_even m = \<lfloor>m\<rfloor> \<or> round_half_even m = \<lfloor>m\<rfloor> + 1"
  by (simp add: round_half_even_def Let_def)

lemma round_half_even_int: "round_half_even (of_int k) = k"
  by (simp add: round_half_even_def Let_def)

lemma round_half_even_le:
  assumes "m \<le> of_int k"
  shows "round_half_even m \<le> k"
proof (cases "m = of_int \<lfloor>m\<rfloor>")
  case True
  then have "round_half_even m = \<lfloor>m\<rfloor>" using round_half_even_int[of "\<lfloor>m\<rfloor>"] by simp
  moreover have "\<lfloor>m\<rfloor> \<le> k" using assms by (simp add: floor_le_iff)
  ultimately show ?thesis by simp
next
  case False
  have "of_int \<lfloor>m\<rfloor> \<noteq> m" using False by (rule not_sym)
  then have "of_int \<lfloor>m\<rfloor> < m" by (rule le_neq_trans[OF of_int_floor_le])
  then have "of_int \<lfloor>m\<rfloor> < (of_int k :: rat)" using assms by simp
  then have "\<lfloor>m\<rfloor> < k" by (simp only: of_int_less_iff)
  then show ?thesis using round_half_even_range[of m] by auto
qed

lemma round_half_even_nonneg: "0 \<le> m \<Longrightarrow> 0 \<le> round_half_even m"
  using round_half_even_range[of m] by (auto simp: zero_le_floor) 

lemma round_double_nonneg: "0 \<le> x \<Longrightarrow> 0 \<le> round_double x"
  by (auto simp: round_double_def Let_def intro!: mult_nonneg_nonneg round_half_even_nonneg)

text \<open>Rounding does not pass a number that is a double.\<close>

lemma round_double_le:
  assumes x: "0 < x" "x \<le> y" and y: "round_double y = y"
  shows "round_double x \<le> y"
proof -
  define ux where "ux = max (floor_log2 x - 52) (- 1074)"
  define uy where "uy = max (floor_log2 y - 52) (- 1074)"
  define ny where "ny = round_half_even (y / 2 powi uy)"
  have yp: "0 < y" using x by simp
  have u: "ux \<le> uy" using floor_log2_mono[OF x] by (simp add: ux_def uy_def)
  have yv: "y = of_int ny * 2 powi uy"
    using y yp by (simp add: round_double_def Let_def uy_def ny_def)
  define k where "k = ny * 2 ^ nat (uy - ux)"
  have "2 powi uy = (2::rat) powi (uy - ux) * 2 powi ux"
    by (simp add: power_int_add[symmetric])
  also have "(2::rat) powi (uy - ux) = of_int (2 ^ nat (uy - ux))"
    using u by (simp add: power_int_def)
  finally have yk: "y = of_int k * 2 powi ux" using yv by (simp add: k_def)
  have "x / 2 powi ux \<le> y / 2 powi ux" using x(2) by (simp add: divide_right_mono)
  also have "\<dots> = of_int k" using yk by simp
  finally have "round_half_even (x / 2 powi ux) \<le> k" by (rule round_half_even_le)
  then have "(of_int (round_half_even (x / 2 powi ux)) :: rat) \<le> of_int k"
    by (simp only: of_int_le_iff)
  then have "of_int (round_half_even (x / 2 powi ux)) * 2 powi ux \<le> of_int k * (2::rat) powi ux"
    by (simp add: mult_right_mono)
  then show ?thesis using x(1) yk by (simp add: round_double_def Let_def ux_def)
qed

lemma round_double_nonpos: "x \<le> 0 \<Longrightarrow> round_double x \<le> 0"
proof (cases "x = 0")
  case True
  then show ?thesis by (simp add: round_double_def)
next
  case False
  assume "x \<le> 0"
  then have n: "x < 0" using False by simp
  define u where "u = max (floor_log2 \<bar>x\<bar> - 52) (- 1074)"
  have "0 \<le> round_half_even (\<bar>x\<bar> / 2 powi u)"
    by (rule round_half_even_nonneg) simp
  then have "0 \<le> (of_int (round_half_even (\<bar>x\<bar> / 2 powi u)) :: rat) * 2 powi u"
    by (intro mult_nonneg_nonneg) simp_all
  then show ?thesis using n by (simp add: round_double_def Let_def u_def)
qed

lemma round_double_le_double:
  assumes "x \<le> y" "0 \<le> y" "round_double y = y"
  shows "round_double x \<le> y"
proof (cases "0 < x")
  case True
  then show ?thesis using assms by (intro round_double_le)
next
  case False
  then have "round_double x \<le> 0" by (intro round_double_nonpos) simp
  then show ?thesis using assms(2) by simp
qed

lemma fadd_nonneg: "0 \<le> a \<Longrightarrow> 0 \<le> b \<Longrightarrow> 0 \<le> fadd a b"
  by (simp add: fadd_def round_double_nonneg)

lemma fmul_nonneg: "0 \<le> a \<Longrightarrow> 0 \<le> b \<Longrightarrow> 0 \<le> fmul a b"
  by (simp add: fmul_def round_double_nonneg)

lemma truediv_nonneg: "0 \<le> truediv a b"
  by (simp add: truediv_def round_double_nonneg)

lemma round_double_one: "round_double 1 = 1"
  by code_simp

lemma truediv_le_one: "a \<le> b \<Longrightarrow> truediv a b \<le> 1"
proof -
  assume "a \<le> b"
  then have "(of_nat a :: rat) / of_nat b \<le> 1"
    by (cases "b = 0") (simp_all add: divide_le_eq_1)
  then show ?thesis
    unfolding truediv_def by (rule round_double_le_double) (simp_all add: round_double_one)
qed

section \<open>Scorer: the doubles of the literals\<close>

lemma agreeing_flags_eq:
  "length (filter (\<lambda>attr. attr v = attr u) score_attrs) = agreeing_flags v u"
  by (simp add: score_attrs_def agreeing_flags_def)

lemma agreeing_flags_le: "agreeing_flags v u \<le> 4"
  by (simp add: agreeing_flags_def)

text \<open>
  The score with the doubles of the four literals named. The sums and products that do
  not depend on the child counts are then worked out once: the equation below is used to
  run the scorer.
\<close>

lemma calculate_match_score_literals:
  assumes "c4 = round_double (4/10)" "c3 = round_double (3/10)" "c2 = round_double (2/10)"
      and "c15 = round_double (15/100)"
  shows "calculate_match_score vh_node ui_node has_same_id =
     (let score1 = (if has_same_id then fadd 0 c4 else 0);
          vh_class = split_last ''.'' (class_name (info vh_node));
          ui_class = split_last ''.'' (class_name (info ui_node));
          score2 = (if vh_class = ui_class then fadd score1 c3
                    else if similar_class_names vh_class ui_class then fadd score1 c2
                    else score1);
          vh_child_count = length (children vh_node);
          ui_child_count = length (children ui_node);
          score3 = (if vh_child_count = ui_child_count then fadd score2 c15
                    else if vh_child_count > 0 \<and> ui_child_count > 0
                    then fadd score2 (fmul c15 (truediv (min vh_child_count ui_child_count)
                                                        (max vh_child_count ui_child_count)))
                    else score2)
      in fadd score3 (fmul c15 (truediv (agreeing_flags (info vh_node) (info ui_node)) 4)))"
proof -
  have n: "length score_attrs = 4" "(0 < (4::nat)) = True" by (simp_all add: score_attrs_def)
  show ?thesis
    unfolding calculate_match_score_def assms Let_def agreeing_flags_eq n if_True
    by (rule refl)
qed

lemma literal_values:
  assumes "c4 = round_double (4/10)" "c3 = round_double (3/10)" "c2 = round_double (2/10)"
      and "c15 = round_double (15/100)"
  shows "fadd 0 c4 = 3602879701896397 / 9007199254740992"
    and "fadd (fadd 0 c4) c3 = 3152519739159347 / 4503599627370496"
    and "fadd (fadd 0 c4) c2 = 1351079888211149 / 2251799813685248"
    and "fadd 0 c3 = 5404319552844595 / 18014398509481984"
    and "fadd 0 c2 = 3602879701896397 / 18014398509481984"
    and "c15 = 5404319552844595 / 36028797018963968"
    and "fmul c15 (truediv 0 4) = 0"
    and "fmul c15 (truediv 1 4) = 5404319552844595 / 144115188075855872"
    and "fmul c15 (truediv 2 4) = 5404319552844595 / 72057594037927936"
    and "fmul c15 (truediv 3 4) = 2026619832316723 / 18014398509481984"
    and "fmul c15 (truediv 4 4) = 5404319552844595 / 36028797018963968"
  unfolding assms by code_simp+

lemma calculate_match_score_code [code]:
  "calculate_match_score vh_node ui_node has_same_id =
     (let vh_class = split_last ''.'' (class_name (info vh_node));
          ui_class = split_last ''.'' (class_name (info ui_node));
          score2 = (if vh_class = ui_class
                    then (if has_same_id then 3152519739159347 / 4503599627370496
                          else 5404319552844595 / 18014398509481984)
                    else if similar_class_names vh_class ui_class
                    then (if has_same_id then 1351079888211149 / 2251799813685248
                          else 3602879701896397 / 18014398509481984)
                    else (if has_same_id then 3602879701896397 / 9007199254740992 else 0));
          vh_child_count = length (children vh_node);
          ui_child_count = length (children ui_node);
          score3 = (if vh_child_count = ui_child_count
                    then fadd score2 (5404319552844595 / 36028797018963968)
                    else if vh_child_count > 0 \<and> ui_child_count > 0
                    then fadd score2 (fmul (5404319552844595 / 36028797018963968)
                                           (truediv (min vh_child_count ui_child_count)
                                                    (max vh_child_count ui_child_count)))
                    else score2);
          attr_score = agreeing_flags (info vh_node) (info ui_node)
      in fadd score3
           (if attr_score = 0 then 0
            else if attr_score = 1 then 5404319552844595 / 144115188075855872
            else if attr_score = 2 then 5404319552844595 / 72057594037927936
            else if attr_score = 3 then 2026619832316723 / 18014398509481984
            else 5404319552844595 / 36028797018963968))"
proof -
  define c4 c3 c2 c15 where c: "c4 = round_double (4/10)" "c3 = round_double (3/10)"
    "c2 = round_double (2/10)" "c15 = round_double (15/100)"
  note v = literal_values[OF c]
  define k where "k = agreeing_flags (info vh_node) (info ui_node)"
  have "k \<le> 4" unfolding k_def by (rule agreeing_flags_le)
  then have "k = 0 \<or> k = 1 \<or> k = 2 \<or> k = 3 \<or> k = 4" by auto
  then have t: "fmul c15 (truediv k 4) =
           (if k = 0 then 0
            else if k = 1 then 5404319552844595 / 144115188075855872
            else if k = 2 then 5404319552844595 / 72057594037927936
            else if k = 3 then 2026619832316723 / 18014398509481984
            else 5404319552844595 / 36028797018963968)"
    using v(7-11) by auto
  show ?thesis
  proof (cases has_same_id)
    case True
    then have b: "has_same_id = True" by simp
    show ?thesis
      unfolding calculate_match_score_literals[OF c] k_def[symmetric] t Let_def b if_True
      unfolding v(2,3)
      unfolding v(1) v(6)
      by (rule refl)
  next
    case False
    then have b: "has_same_id = False" by simp
    show ?thesis
      unfolding calculate_match_score_literals[OF c] k_def[symmetric] t Let_def b if_False
      unfolding v(4,5) v(6)
      by (rule refl)
  qed
qed

section \<open>Merger: lemmas on the recursion\<close>

lemma find_best_match_frame:
  "find_best_match st vh ctx = (r, st') \<Longrightarrow>
     matched_count st' = matched_count st \<and> unmatched_count st' = unmatched_count st \<and>
     ui_node_map st' = ui_node_map st \<and> match_log st' = match_log st"
  by (auto simp: find_best_match_def mark_node_used_def split: list.splits prod.splits if_splits)

lemma match_and_merge_miss:
  "find_best_match st (Node i cs) ctx = (None, st1) \<Longrightarrow>
   match_and_merge (Node i cs) ctx st =
     (Node (i\<lparr>text_matched := Some False\<rparr>) (fst (merge_children cs ctx (after_miss st1))),
      snd (merge_children cs ctx (after_miss st1)))"
  by (simp add: after_miss_def Let_def split: prod.splits)

lemma match_and_merge_hit:
  "find_best_match st (Node i cs) ctx = (Some m, st1) \<Longrightarrow>
   match_and_merge (Node i cs) ctx st =
     (Node (info (supplement_text_info (Node i cs) m))
           (fst (merge_children cs m (after_match st1 m))),
      snd (merge_children cs m (after_match st1 m)))"
  by (simp add: after_match_def Let_def split: prod.splits)

lemma merge_children_Cons:
  "match_and_merge c ctx st = (c', st1) \<Longrightarrow>
   merge_children (c # cs) ctx st =
     (c' # fst (merge_children cs ctx st1), snd (merge_children cs ctx st1))"
  by (simp add: Let_def split: prod.splits)

lemma merge_children_Nil: "merge_children [] ctx st = ([], st)"
  by simp

declare match_and_merge.simps [simp del]

declare merge_children.simps [simp del]

lemma merge_induct [case_names miss hit Nil Cons]:
  assumes miss: "\<And>i cs ctx st st1.
            find_best_match st (Node i cs) ctx = (None, st1) \<Longrightarrow>
            Q cs ctx (after_miss st1) \<Longrightarrow> P (Node i cs) ctx st"
      and hit: "\<And>i cs ctx st st1 m.
            find_best_match st (Node i cs) ctx = (Some m, st1) \<Longrightarrow>
            Q cs m (after_match st1 m) \<Longrightarrow> P (Node i cs) ctx st"
      and nil: "\<And>ctx st. Q [] ctx st"
      and cons: "\<And>c cs ctx st c' st1.
            match_and_merge c ctx st = (c', st1) \<Longrightarrow> P c ctx st \<Longrightarrow> Q cs ctx st1 \<Longrightarrow>
            Q (c # cs) ctx st"
  shows "P vh ctx0 st0" and "Q cs0 ctx0 st0"
proof (induction vh ctx0 st0 and cs0 ctx0 st0 rule: match_and_merge_merge_children.induct)
  case (1 i cs ui_context st)
  obtain r st1 where f: "find_best_match st (Node i cs) ui_context = (r, st1)"
    by (cases "find_best_match st (Node i cs) ui_context")
  show ?case
  proof (cases r)
    case None
    have "Q cs ui_context (after_miss st1)"
      using "1.IH"(1)[of r st1 "after_miss st1"] f None by (simp add: after_miss_def)
    then show ?thesis using miss f None by blast
  next
    case (Some m)
    have "Q cs m (after_match st1 m)"
      using "1.IH"(2)[of r st1 m "after_match st1 m"] f Some by (simp add: after_match_def)
    then show ?thesis using hit f Some by blast
  qed
next
  case (2 ui_context st)
  show ?case by (rule nil)
next
  case (3 c cs ui_context st)
  obtain c' st1 where m: "match_and_merge c ui_context st = (c', st1)"
    by (cases "match_and_merge c ui_context st")
  have "Q cs ui_context st1" using "3.IH"(2)[of "(c', st1)" c' st1] m by simp
  then show ?case using cons[OF m "3.IH"(1)] by blast
qed

lemma merge_counts:
  "matched_count (snd (match_and_merge vh ctx st)) +
   unmatched_count (snd (match_and_merge vh ctx st))
     = matched_count st + unmatched_count st + count_nodes vh"
  "matched_count (snd (merge_children cs ctx st)) +
   unmatched_count (snd (merge_children cs ctx st))
     = matched_count st + unmatched_count st + sum_list (map count_nodes cs)"
proof (induction vh ctx st and cs ctx st rule: merge_induct)
  case (miss i cs ctx st st1)
  then show ?case
    using find_best_match_frame[OF miss(1)]
    by (simp add: match_and_merge_miss after_miss_def)
next
  case (hit i cs ctx st st1 m)
  then show ?case
    using find_best_match_frame[OF hit(1)]
    by (simp add: match_and_merge_hit after_match_def)
next
  case (Nil ctx st)
  show ?case by (simp add: merge_children_Nil)
next
  case (Cons c cs ctx st c' st1)
  then show ?case by (simp add: merge_children_Cons)
qed

lemma merge_size:
  "count_nodes (fst (match_and_merge vh ctx st)) = count_nodes vh"
  "map count_nodes (fst (merge_children cs ctx st)) = map count_nodes cs"
proof (induction vh ctx st and cs ctx st rule: merge_induct)
  case (miss i cs ctx st st1)
  then show ?case by (simp add: match_and_merge_miss)
next
  case (hit i cs ctx st st1 m)
  then show ?case by (simp add: match_and_merge_hit)
next
  case (Nil ctx st)
  show ?case by (simp add: merge_children_Nil)
next
  case (Cons c cs ctx st c' st1)
  then show ?case by (simp add: merge_children_Cons)
qed

lemma merge_trees_both:
  "merge_trees (Some vh) (Some ui) st =
     (Some (fst (match_and_merge (anchored vh) (anchored ui)
                   (st\<lparr>ui_node_map := build_ui_index (anchored ui) (ui_node_map st)\<rparr>))),
      snd (match_and_merge (anchored vh) (anchored ui)
             (st\<lparr>ui_node_map := build_ui_index (anchored ui) (ui_node_map st)\<rparr>)))"
  by (simp add: merge_trees_def anchored_def Let_def split: prod.splits)

section \<open>Matcher: lemmas on the candidate list and the selection\<close>

lemma id_candidates_eq:
  "id_candidates st vh nodes acc =
     acc @ map (\<lambda>n. (n, calculate_match_score vh n True)) (filter (is_node_available st) nodes)"
  by (induction nodes arbitrary: acc) simp_all

lemma scored_append: "scored st vh (xs @ ys) = scored st vh xs @ scored st vh ys"
  by (simp add: scored_def)

lemma scored_concat: "scored st vh (concat xss) = concat (map (scored st vh) xss)"
  by (induction xss) (simp_all add: scored_append, simp add: scored_def)

lemma scored_single:
  "scored st vh [n] =
     (if is_node_available st n
      then (let score = calculate_match_score vh n False in if score > 0 then [(n, score)] else [])
      else [])"
  by (simp add: scored_def Let_def)

lemma search_in_subtree_eq:
  "search_in_subtree st vh t acc maxd cur =
     acc @ (if cur > maxd then [] else scored st vh (within_depth (maxd - cur) t))"
  "search_in_children st vh cs acc maxd d =
     acc @ (if d > maxd then [] else concat (map (\<lambda>t. scored st vh (within_depth (maxd - d) t)) cs))"
proof (induction st vh t acc maxd cur and st vh cs acc maxd d
       rule: search_in_subtree_search_in_children.induct)
  case (1 st vh i cs candidates max_depth current_depth)
  show ?case
  proof (cases "current_depth > max_depth")
    case True
    then show ?thesis by simp
  next
    case False
    note ih = "1.IH"[OF False]
    show ?thesis
    proof (cases "current_depth = max_depth")
      case True
      then show ?thesis
        using ih by (simp add: scored_single Let_def)
    next
      case neq: False
      with False obtain k where k: "max_depth - current_depth = Suc k"
        by (cases "max_depth - current_depth") auto
      then have k': "max_depth - (current_depth + 1) = k" by simp
      have le: "\<not> current_depth + 1 > max_depth" using False neq by simp
      have "within_depth (Suc k) (Node i cs) = [Node i cs] @ concat (map (within_depth k) cs)"
        by simp
      then have "scored st vh (within_depth (Suc k) (Node i cs)) =
              scored st vh [Node i cs] @ scored st vh (concat (map (within_depth k) cs))"
        by (simp only: scored_append)
      then have "scored st vh (within_depth (Suc k) (Node i cs)) =
              scored st vh [Node i cs] @ concat (map (\<lambda>t. scored st vh (within_depth k t)) cs)"
        by (simp only: scored_concat map_map comp_def)
      then show ?thesis
        using ih le k k' by (simp add: scored_single Let_def)
    qed
  qed
next
  case (2 st vh candidates max_depth depth)
  show ?case by simp
next
  case (3 st vh c cs candidates max_depth depth)
  then show ?case by simp
qed

lemma collect_candidates_eq:
  "collect_candidates st vh ctx = id_lookup_candidates st vh @ subtree_candidates st vh ctx"
proof -
  have s: "subtree_candidates st vh ctx = scored st vh (within_depth 2 ctx)"
    by (simp add: subtree_candidates_def scored_def)
  show ?thesis
    unfolding collect_candidates_def id_lookup_candidates_def id_suffix_of_def s Let_def
    by (simp add: search_in_subtree_eq id_candidates_eq split: option.splits)
qed

lemma collect_candidates_available:
  "(n, s) \<in> set (collect_candidates st vh ctx) \<Longrightarrow> is_node_available st n"
  by (auto simp: collect_candidates_eq id_lookup_candidates_def subtree_candidates_def
           split: option.splits)

lemma find_filter:
  "find P xs = (case filter P xs of [] \<Rightarrow> None | x # rest \<Rightarrow> Some x)"
  by (induction xs) auto

text \<open>The head of a list sorted by descending score is its first element of maximal score.\<close>

lemma hd_sort_key_first_min:
  assumes "xs \<noteq> []"
  shows "find (\<lambda>c. \<forall>d \<in> set xs. f c \<le> f d) xs = Some (hd (sort_key f xs))"
proof -
  let ?ys = "sort_key f xs"
  let ?h = "hd ?ys"
  have ne: "?ys \<noteq> []" using assms by (metis length_0_conv length_sort)
  have srt: "sorted (map f ?ys)" by (rule sorted_sort_key)
  have hmin: "\<forall>d \<in> set xs. f ?h \<le> f d"
  proof
    fix d assume "d \<in> set xs"
    then have d: "d \<in> set ?ys" by simp
    obtain y ys where ys: "?ys = y # ys" using ne by (cases ?ys) auto
    have "\<forall>z \<in> set ys. f y \<le> f z" using srt ys by simp
    then show "f ?h \<le> f d" using d ys by auto
  qed
  have eqk: "(\<forall>d \<in> set xs. f c \<le> f d) \<longleftrightarrow> f c = f ?h" if "c \<in> set xs" for c
  proof
    assume a: "\<forall>d \<in> set xs. f c \<le> f d"
    have "?h \<in> set xs" using ne by (metis hd_in_set set_sort)
    then have "f c \<le> f ?h" using a by blast
    moreover have "f ?h \<le> f c" using hmin that by blast
    ultimately show "f c = f ?h" by simp
  next
    assume "f c = f ?h"
    then show "\<forall>d \<in> set xs. f c \<le> f d" using hmin by simp
  qed
  have "find (\<lambda>c. \<forall>d \<in> set xs. f c \<le> f d) xs = find (\<lambda>c. f c = f ?h) xs"
    by (rule find_cong) (auto simp: eqk)
  also have "\<dots> = (case filter (\<lambda>c. f c = f ?h) xs of [] \<Rightarrow> None | x # _ \<Rightarrow> Some x)"
    by (rule find_filter)
  also have "filter (\<lambda>c. f c = f ?h) xs = filter (\<lambda>c. f c = f ?h) ?ys"
    by (rule sort_key_stable[symmetric])
  also have "(case filter (\<lambda>c. f c = f ?h) ?ys of [] \<Rightarrow> None | x # _ \<Rightarrow> Some x) = Some ?h"
    using ne by (cases ?ys) auto
  finally show ?thesis .
qed

lemma first_best_sort:
  "cands \<noteq> [] \<Longrightarrow> first_best cands = Some (hd (sort_candidates cands))"
  using hd_sort_key_first_min[of cands "\<lambda>c. - snd c"]
  by (simp add: first_best_def sort_candidates_def)

lemma first_best_Nil: "first_best [] = None"
  by (simp add: first_best_def)

lemma find_best_match_eq:
  "find_best_match st vh ctx =
     (case first_best (collect_candidates st vh ctx) of
        None \<Rightarrow> (None, st)
      | Some (n, s) \<Rightarrow> if s \<ge> 1/2 then (Some n, mark_node_used st n) else (None, st))"
proof (cases "collect_candidates st vh ctx = []")
  case True
  then show ?thesis by (simp add: find_best_match_def first_best_Nil sort_candidates_def)
next
  case False
  then have ne: "sort_candidates (collect_candidates st vh ctx) \<noteq> []"
    by (metis length_0_conv length_sort sort_candidates_def)
  show ?thesis
    using ne by (simp add: find_best_match_def first_best_sort[OF False]
                      split: list.splits prod.splits)
qed

lemma first_best_mem: "first_best cands = Some c \<Longrightarrow> c \<in> set cands"
  by (auto simp: first_best_def find_Some_iff)

lemma find_best_match_hit:
  assumes "find_best_match st vh ctx = (Some n, st')"
  shows "is_node_available st n \<and> st' = mark_node_used st n \<and>
         (\<exists>s. (n, s) \<in> set (collect_candidates st vh ctx))"
proof -
  from assms obtain s where fb: "first_best (collect_candidates st vh ctx) = Some (n, s)"
    and st': "st' = mark_node_used st n"
    by (auto simp: find_best_match_eq split: option.splits if_splits)
  have m: "(n, s) \<in> set (collect_candidates st vh ctx)" by (rule first_best_mem[OF fb])
  show ?thesis using m st' collect_candidates_available[OF m] by blast
qed

lemma find_best_match_miss:
  "find_best_match st vh ctx = (None, st') \<Longrightarrow> st' = st"
  by (auto simp: find_best_match_eq split: option.splits if_splits)

section \<open>Attribute index and identities: lemmas\<close>

lemma add_entries_add_entries:
  "add_entries (add_entries old xs) ys = add_entries old (xs @ ys)"
  by (auto simp: add_entries_def split: option.splits)

lemma index_node_eq:
  "index_node n m s = add_entries (m s) (filter (\<lambda>x. id_suffix_of x = Some s) [n])"
  by (auto simp: index_node_def id_suffix_of_def add_entries_def Let_def split: option.splits)

lemma build_ui_index_eq:
  "build_ui_index t m s = add_entries (m s) (filter (\<lambda>x. id_suffix_of x = Some s) (preorder t))"
  "build_ui_index_children cs m s =
     add_entries (m s) (filter (\<lambda>x. id_suffix_of x = Some s) (concat (map preorder cs)))"
proof (induction t m and cs m arbitrary: s and s rule: build_ui_index_build_ui_index_children.induct)
  case (1 i cs m)
  have "build_ui_index (Node i cs) m s =
          add_entries (index_node (Node i cs) m s)
            (filter (\<lambda>x. id_suffix_of x = Some s) (concat (map preorder cs)))"
    using "1.IH"[of s] by simp
  also have "\<dots> = add_entries (m s)
            (filter (\<lambda>x. id_suffix_of x = Some s) [Node i cs] @
             filter (\<lambda>x. id_suffix_of x = Some s) (concat (map preorder cs)))"
    by (simp only: index_node_eq add_entries_add_entries)
  finally show ?case by simp
next
  case (2 m)
  show ?case by (simp add: add_entries_def)
next
  case (3 c cs m)
  have "build_ui_index_children (c # cs) m s =
          add_entries (build_ui_index c m s)
            (filter (\<lambda>x. id_suffix_of x = Some s) (concat (map preorder cs)))"
    using "3.IH"(2)[of s] by simp
  also have "\<dots> = add_entries (m s)
            (filter (\<lambda>x. id_suffix_of x = Some s) (preorder c) @
             filter (\<lambda>x. id_suffix_of x = Some s) (concat (map preorder cs)))"
    by (simp only: "3.IH"(1)[of s] add_entries_add_entries)
  finally show ?case by simp
qed

lemma build_ui_index_entries:
  "build_ui_index t Map.empty s = Some l \<Longrightarrow>
     l = filter (\<lambda>x. id_suffix_of x = Some s) (preorder t)"
  by (auto simp: build_ui_index_eq add_entries_def split: if_splits)

lemma preorder_self: "t \<in> set (preorder t)"
  by (cases t) simp

lemma preorder_trans:
  "n \<in> set (preorder t) \<Longrightarrow> set (preorder n) \<subseteq> set (preorder t)"
proof (induction t rule: preorder.induct)
  case (1 i cs)
  from "1.prems" consider "n = Node i cs" | c where "c \<in> set cs" "n \<in> set (preorder c)"
    by auto
  then show ?case
  proof cases
    case 1
    then show ?thesis by simp
  next
    case 2
    then have "set (preorder n) \<subseteq> set (preorder c)" using "1.IH" by blast
    then show ?thesis using 2(1) by auto
  qed
qed

lemma within_depth_subset: "set (within_depth d t) \<subseteq> set (preorder t)"
proof (induction d t rule: within_depth.induct)
  case (1 i cs)
  show ?case by simp
next
  case (2 d i cs)
  then show ?case by auto
qed

lemma parse_node_idents:
  "idents (preorder (fst (parse_node e k))) = [k ..< snd (parse_node e k)] \<and>
   k < snd (parse_node e k)"
  "idents (concat (map preorder (fst (parse_nodes es k)))) = [k ..< snd (parse_nodes es k)] \<and>
   k \<le> snd (parse_nodes es k)"
proof (induction e k and es k rule: parse_node_parse_nodes.induct)
  case (1 a es obj)
  obtain cs obj' where p: "parse_nodes es (obj + 1) = (cs, obj')"
    by (cases "parse_nodes es (obj + 1)")
  have ih: "idents (concat (map preorder cs)) = [obj + 1 ..< obj'] \<and> obj + 1 \<le> obj'"
    using "1.IH" p by simp
  have "idents (preorder (Node (element_info a obj) cs)) = obj # [obj + 1 ..< obj']"
    using ih by (simp add: idents_def element_info_def)
  also have "\<dots> = [obj ..< obj']" using ih by (simp add: upt_conv_Cons)
  finally show ?case using p ih by simp
next
  case (2 obj)
  show ?case by (simp add: idents_def)
next
  case (3 e es obj)
  obtain c obj1 where p1: "parse_node e obj = (c, obj1)" by (cases "parse_node e obj")
  obtain cs obj2 where p2: "parse_nodes es obj1 = (cs, obj2)" by (cases "parse_nodes es obj1")
  have i1: "idents (preorder c) = [obj ..< obj1] \<and> obj < obj1" using "3.IH"(1) p1 by simp
  have i2: "idents (concat (map preorder cs)) = [obj1 ..< obj2] \<and> obj1 \<le> obj2"
    using "3.IH"(2)[of "(c, obj1)" c obj1] p1 p2 by simp
  have "idents (concat (map preorder (c # cs))) = [obj ..< obj1] @ [obj1 ..< obj2]"
    using i1 i2 by (simp add: idents_def)
  also have "\<dots> = [obj ..< obj2]"
    using i1 i2 by (metis less_imp_le_nat upt_add_eq_append le_iff_add)
  finally show ?case using p1 p2 i1 i2 by simp
qed

section \<open>Merger: conservation of the counters\<close>

text \<open>
  C1. A parser object starts with both counters at 0 (\<open>init_state\<close>). After
  \<open>merge_trees\<close> on a geometry tree and an attribute tree, matched plus unmatched is
  the number of nodes of the geometry tree below its anchor (the whole tree when it has
  no content anchor), and the merged tree has the same number of nodes. From any other
  counters the pass adds exactly that number. The statistics record of every state has
  \<open>total = matched + unmatched\<close> and \<open>match_rate = matched / total * 100\<close>, and 0 when the
  total is 0.
\<close>

theorem merge_conservation:
  "(merge_trees (Some vh) (Some ui) init_state = (r, st) \<longrightarrow>
      matched_count st + unmatched_count st = count_nodes (anchored vh) \<and>
      (\<exists>merged. r = Some merged \<and> count_nodes merged = count_nodes (anchored vh)) \<and>
      total (get_statistics st) = count_nodes (anchored vh)) \<and>
   (merge_trees (Some vh) (Some ui) st0 = (r', st') \<longrightarrow>
      matched_count st' + unmatched_count st' =
        matched_count st0 + unmatched_count st0 + count_nodes (anchored vh)) \<and>
   matched (get_statistics s) = matched_count s \<and>
   unmatched (get_statistics s) = unmatched_count s \<and>
   total (get_statistics s) = matched (get_statistics s) + unmatched (get_statistics s) \<and>
   match_rate (get_statistics s) =
     (if total (get_statistics s) = 0 then 0
      else of_nat (matched (get_statistics s)) / of_nat (total (get_statistics s)) * 100)"
proof -
  have gen: "matched_count st' + unmatched_count st' =
        matched_count st0 + unmatched_count st0 + count_nodes (anchored vh)"
    if "merge_trees (Some vh) (Some ui) st0 = (r', st')" for st0 r' st'
    using that merge_counts(1)[of "anchored vh" "anchored ui"
        "st0\<lparr>ui_node_map := build_ui_index (anchored ui) (ui_node_map st0)\<rparr>"]
    by (auto simp: merge_trees_both)
  have fresh: "matched_count st + unmatched_count st = count_nodes (anchored vh) \<and>
      (\<exists>merged. r = Some merged \<and> count_nodes merged = count_nodes (anchored vh)) \<and>
      total (get_statistics st) = count_nodes (anchored vh)"
    if m: "merge_trees (Some vh) (Some ui) init_state = (r, st)"
  proof -
    have c: "matched_count st + unmatched_count st = count_nodes (anchored vh)"
      using gen[OF m] by (simp add: init_state_def)
    have "\<exists>merged. r = Some merged \<and> count_nodes merged = count_nodes (anchored vh)"
      using m by (auto simp: merge_trees_both merge_size)
    then show ?thesis using c by (simp add: get_statistics_def Let_def)
  qed
  have stats: "matched (get_statistics s) = matched_count s \<and>
      unmatched (get_statistics s) = unmatched_count s \<and>
      total (get_statistics s) = matched (get_statistics s) + unmatched (get_statistics s) \<and>
      match_rate (get_statistics s) =
        (if total (get_statistics s) = 0 then 0
         else of_nat (matched (get_statistics s)) / of_nat (total (get_statistics s)) * 100)"
    by (simp add: get_statistics_def Let_def)
  show ?thesis using gen fresh stats by blast
qed

text \<open>
  The merge of \<open>screen_dump\<close> with \<open>screen_xml\<close>: the frame and the title are matched, the
  plain view is not; 2 + 1 is the number of nodes of the geometry tree, and the match
  rate is 200/3 per cent.
\<close>

lemma screen_merge_counts:
  "matched_count (snd (merge_trees (Some (parse_view_hierarchy screen_dump))
                         (parse_ui_xml (Some screen_xml)) init_state)) = 2 \<and>
   unmatched_count (snd (merge_trees (Some (parse_view_hierarchy screen_dump))
                           (parse_ui_xml (Some screen_xml)) init_state)) = 1 \<and>
   count_nodes (parse_view_hierarchy screen_dump) = 3 \<and>
   find_content_node (parse_view_hierarchy screen_dump) = None"
  by code_simp

theorem merge_conservation_witness:
  "matched_count (snd (merge_trees (Some (parse_view_hierarchy screen_dump))
                         (parse_ui_xml (Some screen_xml)) init_state)) = 2 \<and>
   unmatched_count (snd (merge_trees (Some (parse_view_hierarchy screen_dump))
                           (parse_ui_xml (Some screen_xml)) init_state)) = 1 \<and>
   count_nodes (anchored (parse_view_hierarchy screen_dump)) = 3 \<and>
   total (get_statistics (snd (merge_trees (Some (parse_view_hierarchy screen_dump))
                           (parse_ui_xml (Some screen_xml)) init_state))) = 3 \<and>
   match_rate (get_statistics (snd (merge_trees (Some (parse_view_hierarchy screen_dump))
                           (parse_ui_xml (Some screen_xml)) init_state))) = 200 / 3 \<and>
   match_rate (get_statistics init_state) = 0"
proof -
  define res where "res = merge_trees (Some (parse_view_hierarchy screen_dump))
                            (parse_ui_xml (Some screen_xml)) init_state"
  have ui: "parse_ui_xml (Some screen_xml) = Some (fst (parse_node screen_xml 0))"
    by (simp add: parse_ui_xml_def)
  have m: "merge_trees (Some (parse_view_hierarchy screen_dump))
             (Some (fst (parse_node screen_xml 0))) init_state = (fst res, snd res)"
    by (simp add: res_def ui)
  have i: "total (get_statistics init_state) = 0"
    by (simp add: get_statistics_def init_state_def)
  note th = merge_conservation[of "parse_view_hierarchy screen_dump"
      "fst (parse_node screen_xml 0)" "fst res" "snd res" init_state "fst res" "snd res"]
  have a: "count_nodes (anchored (parse_view_hierarchy screen_dump)) = 3"
    using screen_merge_counts by (simp add: anchored_def)
  have t: "total (get_statistics (snd res)) = 3"
    using th[of "snd res"] m a by simp
  have r: "match_rate (get_statistics (snd res)) = 200 / 3"
    using th[of "snd res"] t screen_merge_counts by (simp add: res_def)
  have z: "match_rate (get_statistics init_state) = 0"
    using th[of init_state] i by simp
  show ?thesis using screen_merge_counts a t r z by (simp add: res_def)
qed

section \<open>Scorer: the match score\<close>

lemma in_group_iff: "in_group cls class_list \<longleftrightarrow> (\<exists>m \<in> set class_list. py_in m cls)"
  by (simp add: in_group_def list_ex_iff)

lemma similar_class_names_iff:
  "a \<noteq> b \<Longrightarrow> similar_class_names a b = same_class_family a b"
proof -
  assume ne: "a \<noteq> b"
  have "list_ex (\<lambda>(group_name, class_list). in_group a class_list \<and> in_group b class_list)
          type_groups
        \<longleftrightarrow> (\<exists>g \<in> set type_groups. in_group a (snd g) \<and> in_group b (snd g))"
    by (simp add: list_ex_iff case_prod_beta)
  then show ?thesis
    using ne by (simp add: similar_class_names_def same_class_family_def in_group_iff)
qed

text \<open>\<open>s.split('.')[-1]\<close> is what follows the last dot of \<open>s\<close>.\<close>

lemma last_segment_Cons:
  "last_segment (c # cs) =
     (if CHR ''.'' \<in> set cs then last_segment cs else if c = CHR ''.'' then cs else c # cs)"
proof (cases "CHR ''.'' \<in> set cs")
  case True
  then have "takeWhile (\<lambda>c. c \<noteq> CHR ''.'') (rev cs @ [c]) = takeWhile (\<lambda>c. c \<noteq> CHR ''.'') (rev cs)"
    by (intro takeWhile_append1[where x = "CHR ''.''"]) simp_all
  then show ?thesis using True by (simp add: last_segment_def)
next
  case False
  then have "takeWhile (\<lambda>c. c \<noteq> CHR ''.'') (rev cs @ [c])
               = rev cs @ takeWhile (\<lambda>c. c \<noteq> CHR ''.'') [c]"
    by (intro takeWhile_append2) auto
  then show ?thesis using False by (simp add: last_segment_def)
qed

lemma last_segment_no_dot:
  assumes "CHR ''.'' \<notin> set s"
  shows "last_segment s = s"
proof -
  have "\<forall>x \<in> set (rev s). x \<noteq> CHR ''.''" using assms by auto
  then have t: "takeWhile (\<lambda>c. c \<noteq> CHR ''.'') (rev s) = rev s"
    by (simp only: takeWhile_eq_all_conv)
  show ?thesis unfolding last_segment_def t by (rule rev_rev_ident)
qed

lemma split_last_from_dot:
  "split_last_from ''.'' seg s = (if CHR ''.'' \<in> set s then last_segment s else rev seg @ s)"
proof (induction s arbitrary: seg)
  case Nil
  then show ?case by simp
next
  case (Cons c cs)
  show ?case
  proof (cases "c = CHR ''.''")
    case True
    then have "split_last_from ''.'' seg (c # cs) = split_last_from ''.'' [] cs" by simp
    then show ?thesis using True Cons[of "[]"] by (simp add: last_segment_Cons)
  next
    case False
    then have "split_last_from ''.'' seg (c # cs) = split_last_from ''.'' (c # seg) cs" by simp
    then show ?thesis using False Cons[of "c # seg"] by (simp add: last_segment_Cons)
  qed
qed

lemma split_last_dot: "split_last ''.'' s = last_segment s"
  by (simp add: split_last_def split_last_from_dot last_segment_no_dot)

text \<open>
  The score in terms of the doubles \<open>c4\<close>, \<open>c3\<close>, \<open>c2\<close> and \<open>c15\<close> of the four literals.
\<close>

lemma calculate_match_score_unfold:
  assumes "c4 = round_double (4/10)" "c3 = round_double (3/10)" "c2 = round_double (2/10)"
      and "c15 = round_double (15/100)"
  shows "calculate_match_score vh ui b =
     fadd (let s2 = (let s1 = (if b then fadd 0 c4 else 0)
                     in if last_segment (class_name (info vh)) = last_segment (class_name (info ui))
                        then fadd s1 c3
                        else if same_class_family (last_segment (class_name (info vh)))
                                                  (last_segment (class_name (info ui)))
                        then fadd s1 c2 else s1)
           in if length (children vh) = length (children ui) then fadd s2 c15
              else if 0 < length (children vh) \<and> 0 < length (children ui)
              then fadd s2 (fmul c15 (truediv (min (length (children vh)) (length (children ui)))
                                               (max (length (children vh)) (length (children ui)))))
              else s2)
          (fmul c15 (truediv (agreeing_flags (info vh) (info ui)) 4))"
proof -
  have n: "length score_attrs = 4" by (simp add: score_attrs_def)
  have s: "(if a = b' then x else if similar_class_names a b' then y else z) =
           (if a = b' then x else if same_class_family a b' then y else z)"
    for a b' :: string and x y z :: rat
    by (simp add: similar_class_names_iff)
  show ?thesis
    unfolding calculate_match_score_def assms Let_def agreeing_flags_eq n split_last_dot s
    by simp
qed

lemma spec_score_unfold:
  assumes "c4 = round_double (4/10)" "c3 = round_double (3/10)" "c2 = round_double (2/10)"
      and "c15 = round_double (15/100)"
  shows "spec_score vh ui b =
     fadd (fadd (fadd (if b then c4 else 0)
                      (if last_segment (class_name (info vh)) = last_segment (class_name (info ui))
                       then c3
                       else if same_class_family (last_segment (class_name (info vh)))
                                                 (last_segment (class_name (info ui)))
                       then c2 else 0))
                (fmul c15 (if length (children vh) = length (children ui) then 1
                           else if length (children vh) \<noteq> 0 \<and> length (children ui) \<noteq> 0
                           then truediv (min (length (children vh)) (length (children ui)))
                                        (max (length (children vh)) (length (children ui)))
                           else 0)))
          (fmul c15 (truediv (agreeing_flags (info vh) (info ui)) 4))"
  unfolding spec_score_def id_term_def class_term_def child_count_similarity_def assms
  by (rule refl)

text \<open>What the additions and products of the scorer give on the doubles of the literals.\<close>

lemma literal_sums:
  assumes "c4 = round_double (4/10)" "c3 = round_double (3/10)" "c2 = round_double (2/10)"
      and "c15 = round_double (15/100)"
  shows "fadd 0 c4 = c4" "fadd 0 c3 = c3" "fadd 0 c2 = c2" "fadd 0 0 = 0" "fadd c4 0 = c4"
    and "fadd c3 0 = c3" "fadd c2 0 = c2" "fadd (fadd c4 c3) 0 = fadd c4 c3"
    and "fadd (fadd c4 c2) 0 = fadd c4 c2"
    and "fmul c15 0 = 0" "fmul c15 1 = c15"
  unfolding assms by code_simp+

lemma calculate_match_score_eq_spec:
  "calculate_match_score vh ui b = spec_score vh ui b"
proof -
  define c4 c3 c2 c15 where c: "c4 = round_double (4/10)" "c3 = round_double (3/10)"
    "c2 = round_double (2/10)" "c15 = round_double (15/100)"
  note l = literal_sums[OF c]
  show ?thesis
    unfolding calculate_match_score_unfold[OF c] spec_score_unfold[OF c]
    by (simp add: l Let_def)
qed

lemma literal_bounds:
  assumes "c4 = round_double (4/10)" "c3 = round_double (3/10)" "c2 = round_double (2/10)"
      and "c15 = round_double (15/100)"
  shows "0 \<le> c4" "0 \<le> c3" "0 \<le> c2" "0 \<le> c15" "round_double c15 = c15"
    and "fadd 0 c4 \<le> fadd c4 c3" "fadd 0 c3 \<le> fadd c4 c3" "fadd 0 c2 \<le> fadd c4 c3"
    and "fadd (fadd 0 c4) c3 \<le> fadd c4 c3" "fadd (fadd 0 c4) c2 \<le> fadd c4 c3"
    and "0 \<le> fadd c4 c3"
    and "fadd c4 c3 + c15 \<le> round_double (85/100)"
    and "round_double (round_double (85/100)) = round_double (85/100)"
    and "round_double (85/100) + c15 \<le> 1"
  unfolding assms by code_simp+

lemma calculate_match_score_bounds:
  "0 \<le> calculate_match_score vh ui b \<and> calculate_match_score vh ui b \<le> 1"
proof -
  define c4 c3 c2 c15 where c: "c4 = round_double (4/10)" "c3 = round_double (3/10)"
    "c2 = round_double (2/10)" "c15 = round_double (15/100)"
  note l = literal_bounds[OF c]
  define y where "y = round_double (85/100)"
  define s2 where
    "s2 = (let s1 = (if b then fadd 0 c4 else 0)
           in if last_segment (class_name (info vh)) = last_segment (class_name (info ui))
              then fadd s1 c3
              else if same_class_family (last_segment (class_name (info vh)))
                                        (last_segment (class_name (info ui)))
              then fadd s1 c2 else s1)"
  define vc uc where "vc = length (children vh)" and "uc = length (children ui)"
  define s3 where
    "s3 = (if vc = uc then fadd s2 c15
           else if 0 < vc \<and> 0 < uc then fadd s2 (fmul c15 (truediv (min vc uc) (max vc uc)))
           else s2)"
  define t4 where "t4 = fmul c15 (truediv (agreeing_flags (info vh) (info ui)) 4)"
  have sc: "calculate_match_score vh ui b = fadd s3 t4"
    unfolding calculate_match_score_unfold[OF c] s2_def s3_def t4_def vc_def uc_def Let_def
    by (rule refl)
  have s2: "0 \<le> s2 \<and> s2 \<le> fadd c4 c3"
    using l by (auto simp: s2_def Let_def intro: fadd_nonneg)
  have scale: "0 \<le> fmul c15 q \<and> fmul c15 q \<le> c15" if "0 \<le> q" "q \<le> 1" for q
  proof -
    have "c15 * q \<le> c15" using that l(4) by (simp add: mult_left_le)
    then have "fmul c15 q \<le> c15"
      unfolding fmul_def using l(4,5) by (intro round_double_le_double)
    then show ?thesis using that l(4) by (simp add: fmul_nonneg)
  qed
  have t3: "0 \<le> fmul c15 (truediv (min vc uc) (max vc uc)) \<and>
            fmul c15 (truediv (min vc uc) (max vc uc)) \<le> c15"
    by (rule scale) (simp_all add: truediv_nonneg truediv_le_one)
  have t4: "0 \<le> t4 \<and> t4 \<le> c15"
    unfolding t4_def by (rule scale) (simp_all add: truediv_nonneg truediv_le_one agreeing_flags_le)
  have step: "0 \<le> fadd s2 t \<and> fadd s2 t \<le> y" if "0 \<le> t" "t \<le> c15" for t
  proof -
    have "s2 + t \<le> fadd c4 c3 + c15" using s2 that by simp
    also have "\<dots> \<le> y" unfolding y_def by (rule l(12))
    finally have "s2 + t \<le> y" .
    moreover have "0 \<le> y" using l(11,4,12) by (simp add: y_def)
    ultimately have "fadd s2 t \<le> y"
      unfolding fadd_def using l(13) by (intro round_double_le_double) (simp_all add: y_def)
    then show ?thesis using s2 that by (simp add: fadd_nonneg)
  qed
  have s2y: "s2 \<le> y"
  proof -
    have "s2 \<le> fadd c4 c3 + c15" using s2 l(4) by simp
    also have "\<dots> \<le> y" unfolding y_def by (rule l(12))
    finally show ?thesis .
  qed
  have s3: "0 \<le> s3 \<and> s3 \<le> y"
    unfolding s3_def using step[OF l(4)] step[OF conjunct1[OF t3] conjunct2[OF t3]] s2 s2y
    by simp
  have "s3 + t4 \<le> y + c15" using s3 t4 by simp
  also have "\<dots> \<le> 1" unfolding y_def by (rule l(14))
  finally have "fadd s3 t4 \<le> 1"
    unfolding fadd_def by (intro round_double_le_double) (simp_all add: round_double_one)
  then show ?thesis using s3 t4 by (simp add: sc fadd_nonneg)
qed

text \<open>
  C3. For every geometry node and attribute candidate, the score the code computes is
  the sum the specification gives, added as floats from left to right: 0.4 if the
  candidate came from the id lookup; 0.3 if the last segments of the class names are
  equal, else 0.2 if both contain a member of one class family; 0.15 times the
  child-count similarity; 0.15 times the share of the four flags that agree. The score
  lies between 0 and 1.
\<close>

theorem calculate_match_score_spec:
  "calculate_match_score vh_node ui_node has_same_id = spec_score vh_node ui_node has_same_id \<and>
   0 \<le> calculate_match_score vh_node ui_node has_same_id \<and>
   calculate_match_score vh_node ui_node has_same_id \<le> 1"
  using calculate_match_score_bounds[of vh_node ui_node has_same_id]
  by (simp add: calculate_match_score_eq_spec)

text \<open>
  Example B: same id suffix, same class, no children on either side, all four flags
  agree: the score is 0.4 + 0.3 + 0.15 + 0.15, which is 1.0 in floats.
\<close>

theorem calculate_match_score_spec_witness:
  "calculate_match_score (parse_view_hierarchy title_dump) (fst (parse_node title_xml 0)) True = 1 \<and>
   spec_score (parse_view_hierarchy title_dump) (fst (parse_node title_xml 0)) True = 1"
proof -
  have "calculate_match_score (parse_view_hierarchy title_dump)
          (fst (parse_node title_xml 0)) True = 1"
    by code_simp
  then show ?thesis
    using calculate_match_score_spec[of "parse_view_hierarchy title_dump"
                                        "fst (parse_node title_xml 0)" True]
    by simp
qed

section \<open>Matcher: reservation\<close>

lemma candidates_in_tree:
  assumes idx: "\<forall>s l. ui_node_map st s = Some l \<longrightarrow> set l \<subseteq> set (preorder U)"
      and ctx: "ctx \<in> set (preorder U)"
      and c: "(n, s) \<in> set (collect_candidates st vh ctx)"
  shows "n \<in> set (preorder U)"
proof -
  from c consider "(n, s) \<in> set (id_lookup_candidates st vh)"
    | "(n, s) \<in> set (subtree_candidates st vh ctx)"
    by (auto simp: collect_candidates_eq)
  then show ?thesis
  proof cases
    case 1
    then have "\<exists>k l. ui_node_map st k = Some l \<and> n \<in> set l"
      by (auto simp: id_lookup_candidates_def split: option.splits) metis
    then show ?thesis using idx by blast
  next
    case 2
    then have "n \<in> set (within_depth 2 ctx)"
      by (auto simp: subtree_candidates_def)
    then have "n \<in> set (preorder ctx)" using within_depth_subset by blast
    then show ?thesis using preorder_trans[OF ctx] by blast
  qed
qed

lemma pass_ok_after_miss: "pass_ok U st \<Longrightarrow> pass_ok U (after_miss st)"
  by (simp add: pass_ok_def after_miss_def)

lemma pass_ok_after_match:
  assumes ok: "pass_ok U st" and ctx: "ctx \<in> set (preorder U)"
      and f: "find_best_match st vh ctx = (Some m, st1)"
  shows "pass_ok U (after_match st1 m) \<and> m \<in> set (preorder U)"
proof -
  from find_best_match_hit[OF f] obtain s where av: "is_node_available st m"
    and st1: "st1 = mark_node_used st m" and c: "(m, s) \<in> set (collect_candidates st vh ctx)"
    by blast
  have idx: "\<forall>s l. ui_node_map st s = Some l \<longrightarrow> set l \<subseteq> set (preorder U)"
    using ok by (simp add: pass_ok_def)
  have m: "m \<in> set (preorder U)" by (rule candidates_in_tree[OF idx ctx c])
  then have mi: "ident (info m) \<in> set (idents (preorder U))" by (auto simp: idents_def)
  have fresh: "ident (info m) \<notin> set (match_log st)"
    using av ok by (simp add: is_node_available_def pass_ok_def)
  show ?thesis
    using ok fresh mi m
    by (auto simp: pass_ok_def after_match_def st1 mark_node_used_def)
qed

lemma merge_pass_ok:
  "ctx \<in> set (preorder U) \<Longrightarrow> pass_ok U st \<Longrightarrow> pass_ok U (snd (match_and_merge vh ctx st))"
  "ctx \<in> set (preorder U) \<Longrightarrow> pass_ok U st \<Longrightarrow> pass_ok U (snd (merge_children cs ctx st))"
proof (induction vh ctx st and cs ctx st rule: merge_induct)
  case (miss i cs ctx st st1)
  have "st1 = st" by (rule find_best_match_miss[OF miss(1)])
  then have "pass_ok U (after_miss st1)" using miss.prems(2) pass_ok_after_miss by simp
  then show ?case using miss by (simp add: match_and_merge_miss)
next
  case (hit i cs ctx st st1 m)
  have "pass_ok U (after_match st1 m) \<and> m \<in> set (preorder U)"
    by (rule pass_ok_after_match[OF hit.prems(2) hit.prems(1) hit(1)])
  then show ?case using hit by (simp add: match_and_merge_hit)
next
  case (Nil ctx st)
  then show ?case by (simp add: merge_children_Nil)
next
  case (Cons c cs ctx st c' st1)
  then show ?case by (simp add: merge_children_Cons)
qed

lemma merge_used_mono:
  "used st \<subseteq> used (snd (match_and_merge vh ctx st))"
  "used st \<subseteq> used (snd (merge_children cs ctx st))"
proof (induction vh ctx st and cs ctx st rule: merge_induct)
  case (miss i cs ctx st st1)
  have "st1 = st" by (rule find_best_match_miss[OF miss(1)])
  then show ?case using miss by (simp add: match_and_merge_miss after_miss_def)
next
  case (hit i cs ctx st st1 m)
  have "st1 = mark_node_used st m" using find_best_match_hit[OF hit(1)] by blast
  then show ?case
    using hit by (auto simp: match_and_merge_hit after_match_def mark_node_used_def)
next
  case (Nil ctx st)
  show ?case by (simp add: merge_children_Nil)
next
  case (Cons c cs ctx st c' st1)
  then show ?case by (auto simp: merge_children_Cons)
qed

lemma pass_ok_start:
  "pass_ok U (init_state\<lparr>ui_node_map := build_ui_index U (ui_node_map init_state)\<rparr>)"
proof -
  have "set l \<subseteq> set (preorder U)" if "build_ui_index U Map.empty s = Some l" for s l
    using build_ui_index_entries[OF that] by auto
  then show ?thesis by (simp add: pass_ok_def init_state_def)
qed

text \<open>
  C4. A candidate that wins is unreserved before and reserved in the state that
  \<open>_find_best_match\<close> returns with it, and nothing else changes in the reservation; without
  a winner the state is unchanged. A reserved node is in no candidate list, and a
  reservation made during a pass stays to its end. So after a merge pass that starts
  from a fresh parser, the log of matches names no attribute node twice; it has one
  entry per counted match, its nodes are the reserved ones and they are nodes of the
  attribute tree below its anchor. The identities that the attribute parser gives to the
  nodes of one document are all different.
\<close>

theorem reservation_exclusive:
  "(find_best_match st vh ctx = (Some n, st') \<longrightarrow>
      ident (info n) \<notin> used st \<and> used st' = insert (ident (info n)) (used st)) \<and>
   (find_best_match st vh ctx = (None, st') \<longrightarrow> st' = st) \<and>
   (ident (info m) \<in> used st \<longrightarrow> m \<notin> fst ` set (collect_candidates st vh ctx)) \<and>
   used st \<subseteq> used (snd (match_and_merge vh ctx st)) \<and>
   (merge_trees (Some vh_tree) (Some ui_tree) init_state = (r, st_end) \<longrightarrow>
      distinct (match_log st_end) \<and>
      length (match_log st_end) = matched_count st_end \<and>
      set (match_log st_end) = used st_end \<and>
      set (match_log st_end) \<subseteq> set (idents (preorder (anchored ui_tree)))) \<and>
   distinct (idents (preorder (fst (parse_node e k))))"
proof -
  have a: "ident (info n) \<notin> used st \<and> used st' = insert (ident (info n)) (used st)"
    if "find_best_match st vh ctx = (Some n, st')"
    using find_best_match_hit[OF that]
    by (auto simp: is_node_available_def mark_node_used_def)
  have b: "st' = st" if "find_best_match st vh ctx = (None, st')"
    by (rule find_best_match_miss[OF that])
  have c: "m \<notin> fst ` set (collect_candidates st vh ctx)" if "ident (info m) \<in> used st"
    using that collect_candidates_available[of m _ st vh ctx]
    by (auto simp: is_node_available_def)
  have d: "used st \<subseteq> used (snd (match_and_merge vh ctx st))"
    by (rule merge_used_mono)
  have e: "distinct (match_log st_end) \<and>
      length (match_log st_end) = matched_count st_end \<and>
      set (match_log st_end) = used st_end \<and>
      set (match_log st_end) \<subseteq> set (idents (preorder (anchored ui_tree)))"
    if mt: "merge_trees (Some vh_tree) (Some ui_tree) init_state = (r, st_end)"
  proof -
    let ?U = "anchored ui_tree"
    let ?st0 = "init_state\<lparr>ui_node_map := build_ui_index ?U (ui_node_map init_state)\<rparr>"
    have "st_end = snd (match_and_merge (anchored vh_tree) ?U ?st0)"
      using mt by (simp add: merge_trees_both)
    then have "pass_ok ?U st_end"
      using merge_pass_ok(1)[OF preorder_self pass_ok_start, of ?U "anchored vh_tree"] by simp
    then show ?thesis by (auto simp: pass_ok_def)
  qed
  have f: "distinct (idents (preorder (fst (parse_node e k))))"
    using parse_node_idents(1)[of e k] by simp
  show ?thesis using a b c d e f by blast
qed

text \<open>
  On the merge of \<open>screen_dump\<close> with \<open>screen_xml\<close>: the root of the document wins for the
  frame and is reserved by that; the whole pass logs two different nodes.
\<close>

lemma screen_first_match:
  "fst (find_best_match (indexed_state screen_xml) (parse_view_hierarchy screen_dump)
          (fst (parse_node screen_xml 0))) = Some (fst (parse_node screen_xml 0)) \<and>
   ident (info (fst (parse_node screen_xml 0))) = 0 \<and>
   matched_count (snd (merge_trees (Some (parse_view_hierarchy screen_dump))
                         (Some (fst (parse_node screen_xml 0))) init_state)) = 2"
  by code_simp

theorem reservation_exclusive_witness:
  "ident (info (fst (parse_node screen_xml 0))) \<notin> used (indexed_state screen_xml) \<and>
   used (snd (find_best_match (indexed_state screen_xml) (parse_view_hierarchy screen_dump)
                (fst (parse_node screen_xml 0))))
     = insert 0 (used (indexed_state screen_xml)) \<and>
   fst (parse_node screen_xml 0)
     \<notin> fst ` set (collect_candidates
                    (snd (find_best_match (indexed_state screen_xml)
                            (parse_view_hierarchy screen_dump) (fst (parse_node screen_xml 0))))
                    (parse_view_hierarchy screen_dump) (fst (parse_node screen_xml 0))) \<and>
   distinct (match_log (snd (merge_trees (Some (parse_view_hierarchy screen_dump))
                               (Some (fst (parse_node screen_xml 0))) init_state))) \<and>
   length (match_log (snd (merge_trees (Some (parse_view_hierarchy screen_dump))
                             (Some (fst (parse_node screen_xml 0))) init_state))) = 2"
proof -
  define S where "S = indexed_state screen_xml"
  define V where "V = parse_view_hierarchy screen_dump"
  define U where "U = fst (parse_node screen_xml 0)"
  define S' where "S' = snd (find_best_match S V U)"
  define E where "E = merge_trees (Some V) (Some U) init_state"
  have f: "find_best_match S V U = (Some U, S')"
    using screen_first_match by (simp add: S_def V_def U_def S'_def prod_eq_iff)
  have i: "ident (info U) = 0" using screen_first_match by (simp add: U_def)
  have m: "merge_trees (Some V) (Some U) init_state = (fst E, snd E)" by (simp add: E_def)
  have c: "matched_count (snd E) = 2"
    using screen_first_match by (simp add: E_def V_def U_def)
  note t1 = reservation_exclusive[of S V U U S' U V U "fst E" "snd E"]
  have a: "ident (info U) \<notin> used S \<and> used S' = insert 0 (used S)"
    using t1 f i by simp
  then have r: "ident (info U) \<in> used S'" using i by simp
  note t2 = reservation_exclusive[of S' V U U S' U V U "fst E" "snd E"]
  have b: "U \<notin> fst ` set (collect_candidates S' V U)" using t2 r by blast
  have d: "distinct (match_log (snd E)) \<and> length (match_log (snd E)) = 2"
    using t1 m c by simp
  show ?thesis
    using a b d by (simp add: S_def V_def U_def S'_def E_def)
qed

section \<open>Merger: what a match copies\<close>

lemma supplement_text_info_info:
  "info (supplement_text_info vh ui) =
     (let v = info vh; u = info ui;
          v1 = (if content_desc u \<noteq> []
                then v\<lparr>content_desc := content_desc u, text_source := Some ''content-desc''\<rparr>
                else if node_text u \<noteq> []
                then v\<lparr>content_desc := node_text u, text_source := Some ''text''\<rparr>
                else v);
          v2 = v1\<lparr>node_text := node_text u\<rparr>;
          v3 = (if resource_id u \<noteq> [] \<and> resource_id v2 = []
                then v2\<lparr>resource_id := resource_id u\<rparr> else v2)
      in v3\<lparr>clickable := clickable u,
             long_clickable := copy_flag (long_clickable u) (long_clickable v3),
             checkable := copy_flag (checkable u) (checkable v3),
             checked := copy_flag (checked u) (checked v3),
             selected := copy_flag (selected u) (selected v3),
             enabled := enabled u,
             focusable := focusable u,
             focused := copy_flag (focused u) (focused v3),
             scrollable := scrollable u,
             info_supplemented := Some True, text_matched := Some True\<rparr>)"
  by (simp add: supplement_text_info_def Let_def)

lemma supplement_text_info_children:
  "children (supplement_text_info vh ui) = children vh"
  by (simp add: supplement_text_info_def Let_def)

lemma match_and_merge_info:
  assumes "fst (find_best_match st vh_node ui_context) = Some ui_node"
  shows "info (fst (match_and_merge vh_node ui_context st))
           = info (supplement_text_info vh_node ui_node)"
proof -
  obtain i cs where v: "vh_node = Node i cs" by (cases vh_node)
  obtain st1 where f: "find_best_match st (Node i cs) ui_context = (Some ui_node, st1)"
    using assms v by (cases "find_best_match st (Node i cs) ui_context") simp
  show ?thesis
    unfolding v match_and_merge_hit[OF f] by simp
qed

text \<open>
  C5, as amended. When \<open>_find_best_match\<close> returns an attribute node for a geometry node,
  the node that \<open>_match_and_merge\<close> leaves in the tree is marked as matched and carries:
  the attribute node's content description and \<open>text_source = "content-desc"\<close> if that
  description is not empty; else, if the attribute node's text is not empty, the text as
  content description and \<open>text_source = "text"\<close>; when both are empty, the content
  description and \<open>text_source\<close> the geometry node had. Its text is always the attribute
  node's text, and its resource id is the attribute node's only when the geometry node's
  own id is empty.
\<close>

theorem match_copies_text_info:
  assumes "fst (find_best_match st vh_node ui_context) = Some ui_node"
      and "r = info (fst (match_and_merge vh_node ui_context st))"
  shows "(content_desc (info ui_node) \<noteq> [] \<longrightarrow>
            content_desc r = content_desc (info ui_node) \<and>
            text_source r = Some ''content-desc'') \<and>
         (content_desc (info ui_node) = [] \<and> node_text (info ui_node) \<noteq> [] \<longrightarrow>
            content_desc r = node_text (info ui_node) \<and> text_source r = Some ''text'') \<and>
         (content_desc (info ui_node) = [] \<and> node_text (info ui_node) = [] \<longrightarrow>
            content_desc r = content_desc (info vh_node) \<and>
            text_source r = text_source (info vh_node)) \<and>
         node_text r = node_text (info ui_node) \<and>
         resource_id r =
           (if resource_id (info vh_node) = [] then resource_id (info ui_node)
            else resource_id (info vh_node)) \<and>
         text_matched r = Some True \<and> info_supplemented r = Some True"
  unfolding assms(2) match_and_merge_info[OF assms(1)]
  by (simp add: supplement_text_info_info Let_def)

text \<open>
  Example B: the geometry line of \<open>title_dump\<close> is matched with the element of \<open>title_xml\<close>,
  which has the text \<open>Hello\<close> and no content description; the merged node has the text
  \<open>Hello\<close>, the content description \<open>Hello\<close> and \<open>text_source = "text"\<close>, and keeps its
  own resource id.
\<close>

lemma title_match:
  "fst (find_best_match (indexed_state title_xml) (parse_view_hierarchy title_dump)
          (fst (parse_node title_xml 0))) \<noteq> None"
  "content_desc (info (the (fst (find_best_match (indexed_state title_xml)
      (parse_view_hierarchy title_dump) (fst (parse_node title_xml 0)))))) = []"
  "node_text (info (the (fst (find_best_match (indexed_state title_xml)
      (parse_view_hierarchy title_dump) (fst (parse_node title_xml 0)))))) = ''Hello''"
  "resource_id (info (parse_view_hierarchy title_dump)) = ''app:id/title''"
  by code_simp+

theorem match_copies_text_info_witness:
  "node_text (info (fst (match_and_merge (parse_view_hierarchy title_dump)
                           (fst (parse_node title_xml 0)) (indexed_state title_xml)))) = ''Hello'' \<and>
   content_desc (info (fst (match_and_merge (parse_view_hierarchy title_dump)
                           (fst (parse_node title_xml 0)) (indexed_state title_xml)))) = ''Hello'' \<and>
   text_source (info (fst (match_and_merge (parse_view_hierarchy title_dump)
                           (fst (parse_node title_xml 0)) (indexed_state title_xml))))
     = Some ''text'' \<and>
   resource_id (info (fst (match_and_merge (parse_view_hierarchy title_dump)
                           (fst (parse_node title_xml 0)) (indexed_state title_xml))))
     = ''app:id/title''"
proof -
  define S where "S = indexed_state title_xml"
  define V where "V = parse_view_hierarchy title_dump"
  define U where "U = fst (parse_node title_xml 0)"
  define m where "m = the (fst (find_best_match S V U))"
  have f: "fst (find_best_match S V U) = Some m"
    using title_match(1) by (auto simp: m_def S_def V_def U_def)
  have c: "content_desc (info m) = []" "node_text (info m) = ''Hello''"
          "resource_id (info V) = ''app:id/title''"
    using title_match(2-4) by (simp_all add: m_def S_def V_def U_def)
  show ?thesis
    using match_copies_text_info[OF f refl] c
    by (simp add: S_def V_def U_def)
qed

text \<open>
  The claim as it was stated (without content description the text is copied and
  \<open>text_source = "text"\<close> recorded) fails for a matched container that has neither: the
  merge of the one-line dump \<open>frame_dump\<close> with the one-element document \<open>frame_xml\<close>
  matches the two nodes, marks the merged node as matched and supplemented, and records
  no \<open>text_source\<close>.
\<close>

theorem match_copies_text_info_counterexample:
  "content_desc (info (fst (parse_node frame_xml 0))) = [] \<and>
   node_text (info (fst (parse_node frame_xml 0))) = [] \<and>
   match_log (snd (merge_trees (Some (parse_view_hierarchy frame_dump))
                     (parse_ui_xml (Some frame_xml)) init_state)) = [0] \<and>
   map_option (\<lambda>m. (text_matched (info m), info_supplemented (info m), focusable (info m),
                      text_source (info m), content_desc (info m)))
     (fst (merge_trees (Some (parse_view_hierarchy frame_dump))
             (parse_ui_xml (Some frame_xml)) init_state))
     = Some (Some True, Some True, ''true'', None, [])"
  by code_simp

section \<open>Matcher: selection of the best candidate\<close>

lemma first_best_None_iff: "first_best cands = None \<longleftrightarrow> cands = []"
proof
  assume "first_best cands = None"
  then show "cands = []" using first_best_sort[of cands] by (cases "cands = []") auto
next
  assume "cands = []"
  then show "first_best cands = None" by (simp add: first_best_Nil)
qed

lemma first_best_Some_iff:
  "first_best cands = Some c \<longleftrightarrow>
     (\<exists>i < length cands. cands ! i = c \<and> (\<forall>d \<in> set cands. snd d \<le> snd c) \<and>
                         (\<forall>j < i. snd (cands ! j) < snd c))"
proof
  assume "first_best cands = Some c"
  then obtain i where i: "i < length cands" and ci: "c = cands ! i"
    and mx: "\<forall>d \<in> set cands. snd d \<le> snd (cands ! i)"
    and before: "\<forall>j < i. \<not> (\<forall>d \<in> set cands. snd d \<le> snd (cands ! j))"
    by (auto simp: first_best_def find_Some_iff)
  have "snd (cands ! j) < snd c" if j: "j < i" for j
  proof -
    from before j obtain d where d: "d \<in> set cands" and lt: "snd (cands ! j) < snd d"
      by (auto simp: not_le)
    have "snd d \<le> snd c" using mx d ci by simp
    then show ?thesis using lt by simp
  qed
  then show "\<exists>i < length cands. cands ! i = c \<and> (\<forall>d \<in> set cands. snd d \<le> snd c) \<and>
                         (\<forall>j < i. snd (cands ! j) < snd c)"
    using i ci mx by blast
next
  assume "\<exists>i < length cands. cands ! i = c \<and> (\<forall>d \<in> set cands. snd d \<le> snd c) \<and>
                         (\<forall>j < i. snd (cands ! j) < snd c)"
  then obtain i where i: "i < length cands" and ci: "cands ! i = c"
    and mx: "\<forall>d \<in> set cands. snd d \<le> snd c"
    and before: "\<forall>j < i. snd (cands ! j) < snd c"
    by blast
  have "\<not> (\<forall>d \<in> set cands. snd d \<le> snd (cands ! j))" if j: "j < i" for j
  proof -
    have "c \<in> set cands" using i ci by auto
    moreover have "\<not> snd c \<le> snd (cands ! j)" using before j by (simp add: not_le)
    ultimately show ?thesis by blast
  qed
  then show "first_best cands = Some c"
    unfolding first_best_def find_Some_iff using i ci mx by blast
qed

text \<open>
  C2, as amended. For every geometry node the matcher takes the candidate list in the
  order it was collected: the unreserved nodes filed in the index under the node's id
  suffix (an index entry lists the nodes of the attribute tree that carry the suffix, in
  pre-order), then the unreserved nodes down to depth 2 below the context, in pre-order,
  whose score is positive. Scores are floats and are compared as such. The winner is the
  first candidate of this list whose score no other candidate exceeds, and it wins only
  if that score is at least 0.5; then it is
  marked used. Otherwise (no candidate, or none reaching 0.5) there is no match and the
  state is unchanged. So between candidates of equal score the one collected first wins:
  a candidate of the id lookup before any candidate of the walk, and inside each of the
  two groups the earlier one in pre-order.
\<close>

theorem find_best_match_selection:
  "find_best_match st vh ctx =
     (case first_best (id_lookup_candidates st vh @ subtree_candidates st vh ctx) of
        None \<Rightarrow> (None, st)
      | Some (n, s) \<Rightarrow> if s \<ge> 1/2 then (Some n, mark_node_used st n) else (None, st)) \<and>
   (first_best cands = Some c \<longleftrightarrow>
      (\<exists>i < length cands. cands ! i = c \<and> (\<forall>d \<in> set cands. snd d \<le> snd c) \<and>
                          (\<forall>j < i. snd (cands ! j) < snd c))) \<and>
   (first_best cands = None \<longleftrightarrow> cands = []) \<and>
   ((\<forall>d \<in> set (id_lookup_candidates st vh @ subtree_candidates st vh ctx). snd d < 1/2) \<longrightarrow>
      find_best_match st vh ctx = (None, st)) \<and>
   (build_ui_index t Map.empty k = Some l \<longrightarrow>
      l = filter (\<lambda>x. id_suffix_of x = Some k) (preorder t))"
proof -
  let ?cs = "id_lookup_candidates st vh @ subtree_candidates st vh ctx"
  have a: "find_best_match st vh ctx =
     (case first_best ?cs of
        None \<Rightarrow> (None, st)
      | Some (n, s) \<Rightarrow> if s \<ge> 1/2 then (Some n, mark_node_used st n) else (None, st))"
    by (simp add: find_best_match_eq collect_candidates_eq)
  have d: "find_best_match st vh ctx = (None, st)" if low: "\<forall>d \<in> set ?cs. snd d < 1/2"
  proof (cases "first_best ?cs")
    case None
    then show ?thesis using a by simp
  next
    case (Some c)
    then have "c \<in> set ?cs" by (rule first_best_mem)
    then have "snd c < 1/2" using low by blast
    then show ?thesis using a Some by (cases c) simp
  qed
  have e: "l = filter (\<lambda>x. id_suffix_of x = Some k) (preorder t)"
    if "build_ui_index t Map.empty k = Some l"
    by (rule build_ui_index_entries[OF that])
  show ?thesis
    using a first_best_Some_iff[of cands c] first_best_None_iff[of cands] d e by blast
qed

text \<open>
  On \<open>tie_dump\<close> and \<open>tie_xml\<close> the first of the best candidates is the node with identity
  3 and score 0.6, and it is selected. On \<open>near_tie_dump\<close> and \<open>near_tie_xml\<close> the node
  with identity 1 scores 0.5249999999999999 and the node with identity 3, later in
  pre-order, scores 0.525 and is selected. For the plain view of \<open>view_dump\<close> no node of
  \<open>screen_xml\<close> reaches 0.5, and there is no match.
\<close>

lemma tie_first_best:
  "map_option (\<lambda>c. (ident (info (fst c)), snd c))
     (first_best (id_lookup_candidates (indexed_state tie_xml) (parse_view_hierarchy tie_dump) @
                  subtree_candidates (indexed_state tie_xml) (parse_view_hierarchy tie_dump)
                    (fst (parse_node tie_xml 0)))) = Some (3, round_double (6/10))"
  by code_simp

lemma near_tie_candidates:
  "map (\<lambda>c. (ident (info (fst c)), snd c))
     (id_lookup_candidates (indexed_state near_tie_xml) (parse_view_hierarchy near_tie_dump) @
      subtree_candidates (indexed_state near_tie_xml) (parse_view_hierarchy near_tie_dump)
        (fst (parse_node near_tie_xml 0)))
     = [(0, 3/16),
        (1, round_double (5249999999999999 / 10 ^ 16)),
        (2, round_double (11249999999999999 / 10 ^ 17)),
        (3, round_double (525 / 1000)),
        (4, round_double (11249999999999999 / 10 ^ 17)),
        (5, round_double (11249999999999999 / 10 ^ 17))]"
  by code_simp

lemma near_tie_first_best:
  "map_option (\<lambda>c. (ident (info (fst c)), snd c))
     (first_best (id_lookup_candidates (indexed_state near_tie_xml)
                    (parse_view_hierarchy near_tie_dump) @
                  subtree_candidates (indexed_state near_tie_xml)
                    (parse_view_hierarchy near_tie_dump)
                    (fst (parse_node near_tie_xml 0)))) = Some (3, round_double (525 / 1000))"
  by code_simp

lemma half_le_doubles: "1/2 \<le> round_double (6/10)" "1/2 \<le> round_double (525 / 1000)"
  by code_simp+

lemma view_candidates_low:
  "\<forall>d \<in> set (id_lookup_candidates (indexed_state screen_xml) (parse_view_hierarchy view_dump) @
              subtree_candidates (indexed_state screen_xml) (parse_view_hierarchy view_dump)
                (fst (parse_node screen_xml 0))). snd d < 1/2"
  by code_simp

theorem find_best_match_selection_witness:
  "map_option (\<lambda>n. ident (info n))
     (fst (find_best_match (indexed_state tie_xml) (parse_view_hierarchy tie_dump)
             (fst (parse_node tie_xml 0)))) = Some 3 \<and>
   map_option (\<lambda>n. ident (info n))
     (fst (find_best_match (indexed_state near_tie_xml) (parse_view_hierarchy near_tie_dump)
             (fst (parse_node near_tie_xml 0)))) = Some 3 \<and>
   find_best_match (indexed_state screen_xml) (parse_view_hierarchy view_dump)
     (fst (parse_node screen_xml 0)) = (None, indexed_state screen_xml)"
proof -
  have sel: "map_option (\<lambda>n. ident (info n)) (fst (find_best_match S V U)) = Some k"
    if "map_option (\<lambda>c. (ident (info (fst c)), snd c))
          (first_best (id_lookup_candidates S V @ subtree_candidates S V U)) = Some (k, s)"
       "1/2 \<le> s"
    for S V U k s
  proof -
    from that(1) obtain n where
      fb: "first_best (id_lookup_candidates S V @ subtree_candidates S V U) = Some (n, s)"
      and n: "ident (info n) = k"
      by auto
    have "find_best_match S V U = (Some n, mark_node_used S n)"
      using find_best_match_selection[of S V U] fb that(2) by simp
    then show ?thesis using n by simp
  qed
  have b: "find_best_match (indexed_state screen_xml) (parse_view_hierarchy view_dump)
     (fst (parse_node screen_xml 0)) = (None, indexed_state screen_xml)"
    using find_best_match_selection[of "indexed_state screen_xml" "parse_view_hierarchy view_dump"
            "fst (parse_node screen_xml 0)"] view_candidates_low
    by blast
  show ?thesis
    using sel[OF tie_first_best half_le_doubles(1)] sel[OF near_tie_first_best half_le_doubles(2)] b
    by simp
qed

text \<open>
  The claim as it was stated lets the candidate that comes first in the pre-order of the
  attribute tree win a tie. In \<open>tie_xml\<close> the nodes have the identities 0 to 6 in
  pre-order. For the \<open>TextView\<close> of \<open>tie_dump\<close> the candidates 1 (found by the walk below the
  context, 0.3 + 0.15 + 0.15) and 3 (found by the id lookup, 0.4 + 0.15 * (1 / 3) + 0.15)
  both score the float 0.6, the highest score. Node 1 comes first in pre-order; the code
  selects node 3, whose candidate was collected first.
\<close>

theorem find_best_match_counterexample:
  "idents (preorder (fst (parse_node tie_xml 0))) = [0, 1, 2, 3, 4, 5, 6] \<and>
   map (\<lambda>c. (ident (info (fst c)), snd c))
     (collect_candidates (indexed_state tie_xml) (parse_view_hierarchy tie_dump)
        (fst (parse_node tie_xml 0)))
     = [(3, round_double (6/10)), (0, 3/16), (1, round_double (6/10)),
        (2, round_double (11249999999999999 / 10 ^ 17)),
        (3, round_double (19999999999999998 / 10 ^ 17)),
        (4, round_double (11249999999999999 / 10 ^ 17)),
        (5, round_double (11249999999999999 / 10 ^ 17)),
        (6, round_double (11249999999999999 / 10 ^ 17))] \<and>
   map_option (\<lambda>n. ident (info n))
     (fst (find_best_match (indexed_state tie_xml) (parse_view_hierarchy tie_dump)
             (fst (parse_node tie_xml 0)))) = Some 3 \<and>
   match_log (snd (merge_trees (Some (parse_view_hierarchy tie_dump))
                     (parse_ui_xml (Some tie_xml)) init_state)) = [3, 4]"
  by code_simp

section \<open>Hit testing: the point query\<close>

lemma find_elements_preorder:
  "find_elements_at_point n x y acc = acc @ filter (\<lambda>m. contains_point m x y) (preorder n)"
  "find_elements_in_children cs x y acc =
     acc @ filter (\<lambda>m. contains_point m x y) (concat (map preorder cs))"
  by (induction n x y acc and cs x y acc
      rule: find_elements_at_point_find_elements_in_children.induct)
     simp_all

lemma py_min_from_mem: "py_min_from best es \<in> insert best (set es)"
  by (induction es arbitrary: best) auto

lemma key_less_trans_neg:
  "\<not> key_less a b \<Longrightarrow> \<not> key_less b c \<Longrightarrow> \<not> key_less a c"
  by (cases a; cases b; cases c) auto

lemma py_min_from_le_best: "\<not> key_less (area_key best) (area_key (py_min_from best es))"
proof (induction es arbitrary: best)
  case Nil
  show ?case by (cases "area_key best") simp_all
next
  case (Cons e es)
  show ?case
  proof (cases "key_less (area_key e) (area_key best)")
    case True
    have a: "\<not> key_less (area_key best) (area_key e)"
      using True by (cases "area_key best"; cases "area_key e") auto
    have b: "\<not> key_less (area_key e) (area_key (py_min_from e es))"
      by (rule Cons.IH)
    have "\<not> key_less (area_key best) (area_key (py_min_from e es))"
      by (rule key_less_trans_neg[OF a b])
    then show ?thesis using True by simp
  next
    case False
    then show ?thesis using Cons.IH[of best] by simp
  qed
qed

lemma py_min_from_minimal:
  "e \<in> insert best (set es) \<Longrightarrow> \<not> key_less (area_key e) (area_key (py_min_from best es))"
proof (induction es arbitrary: best)
  case Nil
  then show ?case by (cases "area_key best") simp_all
next
  case (Cons a es)
  define b where "b = (if key_less (area_key a) (area_key best) then a else best)"
  have step: "py_min_from best (a # es) = py_min_from b es"
    by (simp add: b_def)
  have le: "\<not> key_less (area_key b) (area_key (py_min_from b es))"
    by (rule py_min_from_le_best)
  have bb: "\<not> key_less (area_key best) (area_key b)"
    unfolding b_def by (cases "area_key best"; cases "area_key a") auto
  have ab: "\<not> key_less (area_key a) (area_key b)"
    unfolding b_def by (cases "area_key best"; cases "area_key a") auto
  consider "e = best" | "e = a" | "e \<in> set es" using Cons.prems by auto
  then show ?case
  proof cases
    case 1
    show ?thesis unfolding step 1 by (rule key_less_trans_neg[OF bb le])
  next
    case 2
    show ?thesis unfolding step 2 by (rule key_less_trans_neg[OF ab le])
  next
    case 3
    then have "e \<in> insert b (set es)" by simp
    then show ?thesis unfolding step by (rule Cons.IH)
  qed
qed

text \<open>
  C8. For every point and every tree, \<open>find_element_at_point\<close> returns \<open>None\<close> exactly
  when no node of the tree (in pre-order) has geometry containing the point; otherwise
  it returns a node of the tree that contains the point, has geometry, and whose area
  (width times height) is at most the area of every node containing the point. Without
  a tree the answer is \<open>None\<close>.
\<close>

theorem find_element_at_point_spec:
  "find_element_at_point None x y = None \<and>
   (find_element_at_point (Some t) x y = None \<longleftrightarrow>
      (\<forall>n \<in> set (preorder t). \<not> contains_point n x y)) \<and>
   (\<forall>r. find_element_at_point (Some t) x y = Some r \<longrightarrow>
      r \<in> set (preorder t) \<and> contains_point r x y \<and> geom (info r) \<noteq> None \<and>
      (\<forall>n \<in> set (preorder t). contains_point n x y \<longrightarrow>
         (\<exists>a b. area_key r = Some a \<and> area_key n = Some b \<and> a \<le> b)))"
proof -
  let ?hits = "filter (\<lambda>m. contains_point m x y) (preorder t)"
  have el: "find_elements_at_point t x y [] = ?hits"
    by (simp add: find_elements_preorder)
  have none: "find_element_at_point (Some t) x y = None \<longleftrightarrow>
      (\<forall>n \<in> set (preorder t). \<not> contains_point n x y)"
  proof -
    have "find_element_at_point (Some t) x y = None \<longleftrightarrow> ?hits = []"
      by (simp add: find_element_at_point_def el split: list.splits)
    then show ?thesis by (simp add: filter_empty_conv)
  qed
  have some: "r \<in> set (preorder t) \<and> contains_point r x y \<and> geom (info r) \<noteq> None \<and>
      (\<forall>n \<in> set (preorder t). contains_point n x y \<longrightarrow>
         (\<exists>a b. area_key r = Some a \<and> area_key n = Some b \<and> a \<le> b))"
    if r: "find_element_at_point (Some t) x y = Some r" for r
  proof -
    from r obtain e es where hs: "?hits = e # es" and re: "r = py_min_from e es"
      by (auto simp: find_element_at_point_def el split: list.splits)
    have rin: "r \<in> set ?hits" using py_min_from_mem[of e es] hs re by simp
    then have r1: "r \<in> set (preorder t)" and r2: "contains_point r x y" by auto
    have r3: "geom (info r) \<noteq> None"
      using r2 by (auto simp: contains_point_def split: option.splits)
    have r4: "\<exists>a b. area_key r = Some a \<and> area_key n = Some b \<and> a \<le> b"
      if n1: "n \<in> set (preorder t)" and n2: "contains_point n x y" for n
    proof -
      from n1 n2 have "n \<in> set ?hits" by simp
      then have "n \<in> insert e (set es)" using hs by simp
      then have nl: "\<not> key_less (area_key n) (area_key r)"
        unfolding re by (rule py_min_from_minimal)
      obtain gn where gn: "geom (info n) = Some gn"
        using n2 by (auto simp: contains_point_def split: option.splits)
      obtain gr where gr: "geom (info r) = Some gr" using r3 by auto
      show ?thesis using nl gn gr by (simp add: area_key_def)
    qed
    show ?thesis using r1 r2 r3 r4 by blast
  qed
  show ?thesis using none some by (simp add: find_element_at_point_def)
qed

lemma hit_xml_tree:
  "parse_ui_xml (Some hit_xml) = Some (fst (parse_node hit_xml 0))"
  by (simp add: parse_ui_xml_def)

lemma hit_xml_query:
  "\<exists>r. find_element_at_point (Some (fst (parse_node hit_xml 0))) 15 15 = Some r \<and>
       class_name (info r) = ''android.widget.Button''"
proof -
  have "case find_element_at_point (Some (fst (parse_node hit_xml 0))) 15 15 of
          None \<Rightarrow> False
        | Some r \<Rightarrow> class_name (info r) = ''android.widget.Button''"
    by code_simp
  then show ?thesis by (auto split: option.splits)
qed

theorem find_element_at_point_spec_witness:
  "\<exists>r. find_element_at_point (parse_ui_xml (Some hit_xml)) 15 15 = Some r \<and>
       class_name (info r) = ''android.widget.Button'' \<and>
       r \<in> set (preorder (fst (parse_node hit_xml 0))) \<and>
       contains_point r 15 15 \<and> geom (info r) \<noteq> None \<and>
       find_element_at_point (parse_ui_xml (Some hit_xml)) 500 500 = None"
proof -
  obtain r where r: "find_element_at_point (Some (fst (parse_node hit_xml 0))) 15 15 = Some r"
    and c: "class_name (info r) = ''android.widget.Button''"
    using hit_xml_query by blast
  have far: "\<forall>n \<in> set (preorder (fst (parse_node hit_xml 0))). \<not> contains_point n 500 500"
    by code_simp
  have "r \<in> set (preorder (fst (parse_node hit_xml 0))) \<and> contains_point r 15 15 \<and>
        geom (info r) \<noteq> None"
    using find_element_at_point_spec[of 15 15 "fst (parse_node hit_xml 0)"] r by blast
  moreover have "find_element_at_point (Some (fst (parse_node hit_xml 0))) 500 500 = None"
    using find_element_at_point_spec[of 500 500 "fst (parse_node hit_xml 0)"] far by blast
  ultimately show ?thesis using r c by (auto simp: hit_xml_tree)
qed

section \<open>Geometry parser: lemmas on numbers and bounds strings\<close>

declare str_nat.simps [simp del]













section \<open>Geometry parser: the cases of one step\<close>

lemmas view_info_simps = parsed_line.defs view_info.defs

lemma parse_step_skipped: "is_skipped_line line \<Longrightarrow> parse_step st line = st"
  by (simp add: parse_step_def)

lemma parse_step_in_skip:
  "\<not> is_skipped_line line \<Longrightarrow> in_skipped_subtree st line \<Longrightarrow> parse_step st line = st"
  by (simp add: parse_step_def in_skipped_subtree_def Let_def)

lemma parse_step_unparsed:
  "\<not> is_skipped_line line \<Longrightarrow> \<not> in_skipped_subtree st line \<Longrightarrow>
   parse_line (strip line) = None \<Longrightarrow> parse_step st line = unskip st"
  by (auto simp: parse_step_def in_skipped_subtree_def unskip_def Let_def)

lemma parse_step_filtered:
  "\<not> is_skipped_line line \<Longrightarrow> \<not> in_skipped_subtree st line \<Longrightarrow>
   parse_line (strip line) = Some pl \<Longrightarrow> should_filter pl \<Longrightarrow>
   parse_step st line = (unskip st)\<lparr>skip_children_until_indent := int (indent_level line)\<rparr>"
  by (auto simp: parse_step_def in_skipped_subtree_def unskip_def Let_def)

lemma unskip_fields:
  "parent_stack (unskip st) = parent_stack st" "nodes_stack (unskip st) = nodes_stack st"
  "cells (unskip st) = cells st" "views (unskip st) = views st"
  by (simp_all add: unskip_def)

lemma parse_step_kept:
  assumes "\<not> is_skipped_line line" "\<not> in_skipped_subtree st line"
      and "parse_line (strip line) = Some pl" "\<not> should_filter pl"
      and "pop_stacks (indent_level line) (parent_stack st) (nodes_stack st) = (ps, ns)"
  shows "parse_step st line =
     (let vi = make_view_info pl ps (indent_level line) line;
          st1 = (unskip st)\<lparr>parent_stack := ps, nodes_stack := ns\<rparr>
      in if zero_size (create_ui_node vi)
         then st1\<lparr>skip_children_until_indent := int (indent_level line)\<rparr>
         else st1\<lparr>nodes_stack := length (cells st) # ns,
                  parent_stack := vi # ps,
                  cells := append_child
                             (cells st @ [\<lparr>cell_info = create_ui_node vi, cell_children = []\<rparr>])
                             (case ns of [] \<Rightarrow> 0 | p # rest \<Rightarrow> p) (length (cells st)),
                  views := views st @ [vi]\<rparr>)"
proof -
  have u: "(if 0 \<le> skip_children_until_indent st
            then st\<lparr>skip_children_until_indent := -1\<rparr> else st) = unskip st"
    by (simp add: unskip_def)
  have c: "(0 \<le> skip_children_until_indent st \<and>
            int (indent_level line) > skip_children_until_indent st) = False"
    using assms(2) by (simp add: in_skipped_subtree_def)
  show ?thesis
    using assms(1,3,4,5)
    unfolding parse_step_def make_view_info_def zero_size_def Let_def u c
    by (simp add: unskip_fields)
qed

section \<open>Geometry parser: the invariant of the store\<close>






lemma append_child_length: "length (append_child cs p c) = length cs"
  by (simp add: append_child_def)

lemma append_child_info:
  "a < length cs \<Longrightarrow> cell_info (append_child cs p c ! a) = cell_info (cs ! a)"
  by (cases "a = p") (simp_all add: append_child_def)









lemma make_view_info_fields:
  "vi_bounds (make_view_info pl ps ind line) = vi_bounds pl"
  "vi_class (make_view_info pl ps ind line) = vi_class pl"
  "vi_clickable (make_view_info pl ps ind line) = vi_clickable pl"
  "vi_resource_id (make_view_info pl ps ind line) = vi_resource_id pl"
  "absolute_bounds (make_view_info pl ps ind line) =
     (case ps of [] \<Rightarrow> vi_bounds pl
      | parent # rest \<Rightarrow> calculate_absolute_bounds (absolute_bounds parent) (vi_bounds pl))"
  "parent_bounds (make_view_info pl ps ind line) =
     (case ps of [] \<Rightarrow> None | parent # rest \<Rightarrow> Some (absolute_bounds parent))"
  "indent (make_view_info pl ps ind line) = ind"
  by (simp_all add: make_view_info_def view_info_simps)







section \<open>Geometry parser: where the children of a node lie\<close>

declare tree_at.simps [simp del]







section \<open>Geometry parser: filtered lines and their subtrees\<close>

lemma should_filter_iff:
  "should_filter pl = (blocklisted_id pl \<or> blocklisted_class pl \<or> zero_width_and_height pl)"
  by (auto simp: should_filter_def blocklisted_id_def blocklisted_class_def
        zero_width_and_height_def FILTER_IDS_def FILTER_CLASSES_def Let_def
      split: option.splits)

lemma skip_block:
  assumes "0 \<le> skip_children_until_indent s" "skip_children_until_indent s \<le> int ind"
      and "\<forall>l \<in> set block. is_skipped_line l \<or> ind < indent_level l"
  shows "foldl parse_step s block = s"
  using assms(3)
proof (induction block)
  case Nil
  then show ?case by simp
next
  case (Cons l block)
  have "parse_step s l = s"
  proof (cases "is_skipped_line l")
    case True
    then show ?thesis by (rule parse_step_skipped)
  next
    case False
    then have "ind < indent_level l" using Cons.prems by simp
    then have "in_skipped_subtree s l" using assms(1,2) by (simp add: in_skipped_subtree_def)
    then show ?thesis using False by (simp add: parse_step_in_skip)
  qed
  then show ?case using Cons by simp
qed

text \<open>
  C6, as amended. A line of the dump whose resource id contains an entry of the blocklist
  of ids, whose class is an entry of the blocklist of classes, or whose relative bounds
  have width 0 and height 0, is dropped together with the lines below it that are indented
  more: after them the store, the list of views and the two stacks are what they were
  before the line, so no node was built and no stack entry was popped, and the parser is
  skipping at an indent that is not more than the line's.
\<close>

theorem filtered_subtree_dropped:
  assumes "\<not> is_skipped_line line"
      and "parse_line (strip line) = Some pl"
      and "blocklisted_id pl \<or> blocklisted_class pl \<or> zero_width_and_height pl"
      and "\<forall>l \<in> set block. is_skipped_line l \<or> indent_level line < indent_level l"
  shows "cells (foldl parse_step st (line # block)) = cells st \<and>
         views (foldl parse_step st (line # block)) = views st \<and>
         parent_stack (foldl parse_step st (line # block)) = parent_stack st \<and>
         nodes_stack (foldl parse_step st (line # block)) = nodes_stack st \<and>
         0 \<le> skip_children_until_indent (foldl parse_step st (line # block)) \<and>
         skip_children_until_indent (foldl parse_step st (line # block)) \<le> int (indent_level line)"
proof (cases "in_skipped_subtree st line")
  case True
  then have s: "parse_step st line = st" using assms(1) by (simp add: parse_step_in_skip)
  have k: "0 \<le> skip_children_until_indent st"
          "skip_children_until_indent st \<le> int (indent_level line)"
    using True by (simp_all add: in_skipped_subtree_def)
  have "foldl parse_step st (line # block) = st"
    using skip_block[OF k assms(4)] s by simp
  then show ?thesis using k by simp
next
  case False
  define s where "s = (unskip st)\<lparr>skip_children_until_indent := int (indent_level line)\<rparr>"
  have f: "should_filter pl" using assms(3) by (simp add: should_filter_iff)
  have s1: "parse_step st line = s"
    unfolding s_def by (rule parse_step_filtered[OF assms(1) False assms(2) f])
  have k: "0 \<le> skip_children_until_indent s"
          "skip_children_until_indent s \<le> int (indent_level line)"
    by (simp_all add: s_def)
  have "foldl parse_step st (line # block) = s"
    using skip_block[OF k assms(4)] s1 by simp
  then show ?thesis by (simp add: s_def unskip_fields)
qed

theorem filtered_subtree_dropped_witness:
  "cells (foldl parse_step init_parse_state [status_bar_line, status_bar_child])
     = cells init_parse_state \<and>
   views (foldl parse_step init_parse_state [status_bar_line, status_bar_child]) = [] \<and>
   skip_children_until_indent
     (foldl parse_step init_parse_state [status_bar_line, status_bar_child]) = 0"
proof -
  define pl where "pl = the (parse_line (strip status_bar_line))"
  have a: "\<not> is_skipped_line status_bar_line" by code_simp
  have "parse_line (strip status_bar_line) \<noteq> None" by code_simp
  then have b: "parse_line (strip status_bar_line) = Some pl" by (simp add: pl_def)
  have "blocklisted_id (the (parse_line (strip status_bar_line)))" by code_simp
  then have c: "blocklisted_id pl \<or> blocklisted_class pl \<or> zero_width_and_height pl"
    by (simp add: pl_def)
  have d: "\<forall>l \<in> set [status_bar_child].
             is_skipped_line l \<or> indent_level status_bar_line < indent_level l"
    by code_simp
  have e: "indent_level status_bar_line = 0" by code_simp
  have v: "views init_parse_state = []" by (simp add: init_parse_state_def)
  show ?thesis
    using filtered_subtree_dropped[of status_bar_line pl "[status_bar_child]" init_parse_state,
            OF a b c d] e v
    by simp
qed

text \<open>
  The claim as it was stated drops every line whose relative bounds describe zero area.
  The line of \<open>zero_width_dump\<close> with the bounds 0,0-0,10 has width 0 and height 10, hence
  area 0; it passes the filter, and the tree holds its node and the node of the button
  below it.
\<close>

theorem zero_area_counterexample:
  "(case parse_line (strip zero_width_line) of
      None \<Rightarrow> False
    | Some pl \<Rightarrow> zero_area pl \<and> \<not> should_filter pl) \<and>
   map (\<lambda>n. (class_name (info n), bounds (info n)))
     (preorder (parse_view_hierarchy zero_width_dump))
     = [(''android.view.View'', ''[0,0][0,10]''), (''android.widget.Button'', ''[0,0][5,5]'')]"
  by code_simp

section \<open>Geometry parser: the clickable flag of a node\<close>

lemma startswith_iff: "startswith s p \<longleftrightarrow> (\<exists>r. s = p @ r)"
  by (induction s p rule: startswith.induct) auto

lemma py_in_iff: "py_in sub s \<longleftrightarrow> (\<exists>a b. s = a @ sub @ b)"
proof (induction s)
  case Nil
  then show ?case by auto
next
  case (Cons c cs)
  have "(\<exists>a b. c # cs = a @ sub @ b) \<longleftrightarrow>
        (\<exists>r. c # cs = sub @ r) \<or> (\<exists>a b. cs = a @ sub @ b)"
  proof
    assume "\<exists>a b. c # cs = a @ sub @ b"
    then obtain a b where e: "c # cs = a @ sub @ b" by blast
    show "(\<exists>r. c # cs = sub @ r) \<or> (\<exists>a b. cs = a @ sub @ b)"
    proof (cases a)
      case Nil
      then show ?thesis using e by auto
    next
      case (Cons x a')
      then have "cs = a' @ sub @ b" using e by simp
      then show ?thesis by blast
    qed
  next
    assume "(\<exists>r. c # cs = sub @ r) \<or> (\<exists>a b. cs = a @ sub @ b)"
    then show "\<exists>a b. c # cs = a @ sub @ b"
    proof
      assume "\<exists>r. c # cs = sub @ r"
      then obtain r where "c # cs = [] @ sub @ r" by auto
      then show ?thesis by blast
    next
      assume "\<exists>a b. cs = a @ sub @ b"
      then obtain a b where "c # cs = (c # a) @ sub @ b" by auto
      then show ?thesis by blast
    qed
  qed
  then show ?case using Cons by (simp add: startswith_iff)
qed

lemma py_in_rev: "py_in (rev sub) (rev s) = py_in sub s"
proof -
  have d: "\<exists>a b. s = a @ sub @ b" if "\<exists>a b. rev s = a @ rev sub @ b" for s sub :: string
  proof -
    from that obtain a b where "rev s = a @ rev sub @ b" by blast
    then have "rev (rev s) = rev (a @ rev sub @ b)" by simp
    then have "s = rev b @ sub @ rev a" by simp
    then show ?thesis by blast
  qed
  have "(\<exists>a b. rev s = a @ rev sub @ b) = (\<exists>a b. s = a @ sub @ b)"
    using d[of s sub] d[of "rev s" "rev sub"] by auto
  then show ?thesis by (simp add: py_in_iff)
qed

lemma py_in_dropWhile:
  "sub \<noteq> [] \<Longrightarrow> \<not> P (hd sub) \<Longrightarrow> py_in sub (dropWhile P s) = py_in sub s"
proof (induction s)
  case Nil
  then show ?case by simp
next
  case (Cons c cs)
  then show ?case by (cases sub) auto
qed

text \<open>Stripping a line does not change whether a code without white space occurs in it.\<close>

lemma py_in_strip:
  assumes "sub \<noteq> []" "\<not> is_space (hd sub)" "\<not> is_space (last sub)"
  shows "py_in sub (strip s) = py_in sub s"
proof -
  have r: "rev sub \<noteq> []" "\<not> is_space (hd (rev sub))"
    using assms by (simp_all add: hd_rev)
  have "py_in sub (strip s) = py_in (rev sub) (dropWhile is_space (rev (dropWhile is_space s)))"
    unfolding strip_def by (subst py_in_rev[symmetric]) simp
  also have "\<dots> = py_in (rev sub) (rev (dropWhile is_space s))"
    by (rule py_in_dropWhile[where P = is_space, OF r])
  also have "\<dots> = py_in sub (dropWhile is_space s)" by (rule py_in_rev)
  also have "\<dots> = py_in sub s" by (rule py_in_dropWhile[where P = is_space, OF assms(1,2)])
  finally show ?thesis .
qed

lemma py_in_state_code: "py_in ''.C'' (strip line) = py_in ''.C'' line"
  by (rule py_in_strip) (simp_all add: is_space_def)

lemma parse_line_clickable:
  "parse_line l = Some pl \<Longrightarrow>
   vi_clickable pl = (py_in ''.C'' l \<or> py_in ''Button'' (vi_class pl) \<or> py_in ''TextView'' (vi_class pl))"
  by (auto simp: parse_line_def Let_def split: if_splits option.splits)

lemma create_ui_node_flags:
  "class_name (create_ui_node vi) = vi_class vi"
  "clickable (create_ui_node vi) = str_bool_lower (vi_clickable vi)"
  by (simp_all add: create_ui_node_def Let_def split: option.splits prod.splits)

text \<open>
  What one line does to the store: nothing, or one new cell at the end, made from the line,
  and its address appended to the children of an older cell.
\<close>

lemma parse_step_cells:
  "cells (parse_step st line) = cells st \<or>
   (\<exists>pl ps par. parse_line (strip line) = Some pl \<and>
      cells (parse_step st line) =
        append_child
          (cells st @ [\<lparr>cell_info = create_ui_node (make_view_info pl ps (indent_level line) line),
                         cell_children = []\<rparr>])
          par (length (cells st)))"
proof (cases "is_skipped_line line \<or> in_skipped_subtree st line")
  case True
  then show ?thesis using parse_step_skipped parse_step_in_skip by metis
next
  case False
  then have ns: "\<not> is_skipped_line line" "\<not> in_skipped_subtree st line" by simp_all
  show ?thesis
  proof (cases "parse_line (strip line)")
    case None
    then show ?thesis using ns by (simp add: parse_step_unparsed unskip_fields)
  next
    case (Some pl)
    show ?thesis
    proof (cases "should_filter pl")
      case True
      then show ?thesis using ns Some by (simp add: parse_step_filtered unskip_fields)
    next
      case False
      obtain ps ns' where pop:
        "pop_stacks (indent_level line) (parent_stack st) (nodes_stack st) = (ps, ns')"
        by (cases "pop_stacks (indent_level line) (parent_stack st) (nodes_stack st)")
      note step = parse_step_kept[OF ns Some False pop]
      show ?thesis
      proof (cases "zero_size (create_ui_node (make_view_info pl ps (indent_level line) line))")
        case True
        then show ?thesis using step by (simp add: Let_def unskip_fields)
      next
        case nz: False
        have "cells (parse_step st line) =
                append_child
                  (cells st @ [\<lparr>cell_info = create_ui_node
                                               (make_view_info pl ps (indent_level line) line),
                                 cell_children = []\<rparr>])
                  (case ns' of [] \<Rightarrow> 0 | p # rest \<Rightarrow> p) (length (cells st))"
          using step nz by (simp add: Let_def)
        then show ?thesis using Some by blast
      qed
    qed
  qed
qed

lemma parse_step_length: "length (cells st) \<le> length (cells (parse_step st line))"
  using parse_step_cells[of st line] by (auto simp: append_child_length)

lemma parse_step_cell_info:
  "a < length (cells st) \<Longrightarrow> cell_info (cells (parse_step st line) ! a) = cell_info (cells st ! a)"
  using parse_step_cells[of st line] by (auto simp: append_child_info nth_append)

lemma foldl_parse_step_cell_info:
  "a < length (cells st) \<Longrightarrow>
   cell_info (cells (foldl parse_step st ls) ! a) = cell_info (cells st ! a)"
proof (induction ls arbitrary: st)
  case Nil
  then show ?case by simp
next
  case (Cons l ls)
  have "a < length (cells (parse_step st l))"
    using Cons.prems parse_step_length[of st l] by simp
  then show ?case using Cons.IH[of "parse_step st l"] Cons.prems
    by (simp add: parse_step_cell_info)
qed

text \<open>
  C10, as amended. A line is accepted when its step allocates a cell. The line then
  parses, the new cell is the one at the first free address, and in it, also after any
  further lines, the class is the class parsed from the line and the clickable flag is
  \<open>true\<close> when the two characters \<open>.C\<close> occur anywhere in the line, be it in the state
  field, in the class name or elsewhere, or the class contains \<open>Button\<close> or \<open>TextView\<close>,
  and \<open>false\<close> otherwise.
\<close>

theorem accepted_line_clickable:
  assumes "length (cells (parse_step st line)) = Suc (length (cells st))"
  shows "case parse_line (strip line) of
           None \<Rightarrow> False
         | Some pl \<Rightarrow>
             class_name (cell_info (cells (foldl parse_step st (line # rest)) ! length (cells st)))
               = vi_class pl \<and>
             clickable (cell_info (cells (foldl parse_step st (line # rest)) ! length (cells st)))
               = (if py_in ''.C'' line \<or> py_in ''Button'' (vi_class pl)
                     \<or> py_in ''TextView'' (vi_class pl)
                  then ''true'' else ''false'')"
proof -
  from parse_step_cells[of st line] assms
  obtain pl ps par where pl: "parse_line (strip line) = Some pl"
    and cs: "cells (parse_step st line) =
               append_child
                 (cells st @ [\<lparr>cell_info = create_ui_node
                                              (make_view_info pl ps (indent_level line) line),
                                cell_children = []\<rparr>])
                 par (length (cells st))"
    by auto
  let ?a = "length (cells st)"
  let ?vi = "make_view_info pl ps (indent_level line) line"
  have a: "?a < length (cells (parse_step st line))" using assms by simp
  have "cell_info (cells (foldl parse_step st (line # rest)) ! ?a)
          = cell_info (cells (parse_step st line) ! ?a)"
    using foldl_parse_step_cell_info[OF a, of rest] by simp
  also have "\<dots> = create_ui_node ?vi"
    unfolding cs by (simp add: append_child_info)
  finally have i: "cell_info (cells (foldl parse_step st (line # rest)) ! ?a) = create_ui_node ?vi" .
  have c: "vi_clickable pl = (py_in ''.C'' line \<or> py_in ''Button'' (vi_class pl)
                               \<or> py_in ''TextView'' (vi_class pl))"
    using parse_line_clickable[OF pl] by (simp add: py_in_state_code)
  show ?thesis
    unfolding pl i using c
    by (simp add: create_ui_node_flags make_view_info_fields str_bool_lower_def)
qed

theorem accepted_line_clickable_witness:
  "\<not> py_in ''.C'' title_dump \<and>
   class_name (cell_info (cells (foldl parse_step init_parse_state [title_dump]) ! 1))
     = ''android.widget.TextView'' \<and>
   clickable (cell_info (cells (foldl parse_step init_parse_state [title_dump]) ! 1)) = ''true''"
proof -
  have l: "length (cells init_parse_state) = 1" by (simp add: init_parse_state_def)
  have a: "length (cells (parse_step init_parse_state title_dump))
             = Suc (length (cells init_parse_state))"
    by code_simp
  have p: "parse_line (strip title_dump) \<noteq> None" by code_simp
  have c: "vi_class (the (parse_line (strip title_dump))) = ''android.widget.TextView''"
    by code_simp
  have n: "\<not> py_in ''.C'' title_dump" by code_simp
  have t: "py_in ''TextView'' ''android.widget.TextView''" by code_simp
  show ?thesis
    using accepted_line_clickable[of init_parse_state title_dump "[]", OF a] p c n t l
    by (auto split: option.splits)
qed

text \<open>
  The claim as it was stated looks for \<open>.C\<close> in the state code of the line. The state
  field of \<open>checkbox_line\<close> is \<open>V.ED.....\<close>, without \<open>.C\<close>, and its class contains neither
  \<open>Button\<close> nor \<open>TextView\<close>; the node is reported clickable, because \<open>.C\<close> occurs in
  \<open>android.widget.CheckBox\<close>. The state field of \<open>scrolling_view_line\<close> is \<open>VFEDHVC..\<close>,
  where the \<open>C\<close> of a clickable view follows a \<open>V\<close>; the node is reported not clickable.
\<close>

theorem state_code_counterexample:
  "state_field checkbox_line = ''V.ED.....'' \<and>
   \<not> py_in ''.C'' (state_field checkbox_line) \<and>
   class_name (info (parse_view_hierarchy checkbox_line)) = ''android.widget.CheckBox'' \<and>
   \<not> py_in ''Button'' ''android.widget.CheckBox'' \<and>
   \<not> py_in ''TextView'' ''android.widget.CheckBox'' \<and>
   clickable (info (parse_view_hierarchy checkbox_line)) = ''true'' \<and>
   state_field scrolling_view_line = ''VFEDHVC..'' \<and>
   clickable (info (parse_view_hierarchy scrolling_view_line)) = ''false''"
  by code_simp

section \<open>Missing inputs\<close>

lemma parseViewHierarchyMode_text:
  "fetch_hierarchy d = Some vh_text \<Longrightarrow> vh_text \<noteq> [] \<Longrightarrow>
   parseViewHierarchyMode d dlg None =
     (if views (parse vh_text) = [] then None else Some (parse_view_hierarchy vh_text))"
  by (simp add: parseViewHierarchyMode_def truthy_def parse_view_hierarchy_def Let_def)

text \<open>
  C9. The device has a geometry dump with at least one view and answers the second round
  of questions as the first. When there is no attribute file on disk, the hybrid mode
  hands over to the geometry mode and the result is the geometry tree. When the file is
  on disk and the XML parser rejects it, no attribute tree exists either, but
  \<open>merge_trees\<close> returns nothing and the result of the hybrid mode is empty: the geometry
  tree is not passed on, and no statistics are reported.
\<close>

theorem hybrid_mode_rejected_document:
  assumes "fetch_hierarchy (at_first s) = Some vh_text" and "vh_text \<noteq> []"
      and "views (parse vh_text) \<noteq> []" and "at_retry s = at_first s"
  shows "(ui_dump (at_first s) = None \<or> ui_dump (at_first s) = Some Not_On_Disk \<longrightarrow>
            dumpHierarchy HYBRID s = (Some (parse_view_hierarchy vh_text), None)) \<and>
         (ui_dump (at_first s) = Some (On_Disk None) \<longrightarrow>
            dumpHierarchy HYBRID s = (None, None))"
proof -
  have tr: "truthy (fetch_hierarchy (at_first s))" using assms(1,2) by (simp add: truthy_def)
  have a: "dumpHierarchy HYBRID s = (Some (parse_view_hierarchy vh_text), None)"
    if u: "ui_dump (at_first s) = None \<or> ui_dump (at_first s) = Some Not_On_Disk"
  proof -
    have "dumpHierarchy HYBRID s = (parseViewHierarchyMode (at_first s) (dialog s) None, None)"
      using tr u assms(4) by (auto simp: dumpHierarchy_def parseHybridMode_def Let_def)
    then show ?thesis using parseViewHierarchyMode_text[OF assms(1,2)] assms(3) by simp
  qed
  have b: "dumpHierarchy HYBRID s = (None, None)" if "ui_dump (at_first s) = Some (On_Disk None)"
    using tr that
    by (simp add: dumpHierarchy_def parseHybridMode_def parse_ui_xml_def merge_trees_def Let_def)
  show ?thesis using a b by blast
qed

lemma screen_dump_fetched:
  "fetch_hierarchy no_document_device = Some screen_dump"
  "fetch_hierarchy rejected_document_device = Some screen_dump"
  "screen_dump \<noteq> []" "views (parse screen_dump) \<noteq> []"
  by code_simp+

text \<open>
  The same geometry dump of three views, once with no attribute file and once with a
  file that the XML parser rejects.
\<close>

theorem hybrid_mode_rejected_document_witness:
  "dumpHierarchy HYBRID (steady no_document_device)
     = (Some (parse_view_hierarchy screen_dump), None) \<and>
   dumpHierarchy HYBRID (steady rejected_document_device) = (None, None)"
proof -
  have st: "at_retry (steady d) = at_first (steady d)" "at_first (steady d) = d" for d
    by (simp_all add: steady_def)
  have u: "ui_dump no_document_device = None"
          "ui_dump rejected_document_device = Some (On_Disk None)"
    by (simp_all add: no_document_device_def rejected_document_device_def full_device_def)
  have a: "dumpHierarchy HYBRID (steady no_document_device)
             = (Some (parse_view_hierarchy screen_dump), None)"
    using hybrid_mode_rejected_document[where s = "steady no_document_device"
            and vh_text = screen_dump] screen_dump_fetched u
    by (simp add: st)
  have b: "dumpHierarchy HYBRID (steady rejected_document_device) = (None, None)"
    using hybrid_mode_rejected_document[where s = "steady rejected_document_device"
            and vh_text = screen_dump] screen_dump_fetched u
    by (simp add: st)
  show ?thesis using a b by simp
qed

end
